theory Spec2Isabelle
  imports Main
begin

section \<open>The job table of the shell\<close>

text \<open>
  The shell keeps a fixed array \<^verbatim>\<open>static job jobs[MAXJOBS]\<close>, a counter
  \<^verbatim>\<open>static int next_jid = 0\<close> and the foreground designation
  \<^verbatim>\<open>static int fg_pid = 0\<close>. The array is a list here; every loop of the source
  runs over the indices \<open>0 ..< MAXJOBS\<close> and is a recursive function on the index.
  Values of the types \<^verbatim>\<open>int\<close> and \<^verbatim>\<open>pid_t\<close> are integers; the one computation on them is
  \<^verbatim>\<open>++next_jid\<close>, whose overflow is written out. What the shell prints and the signals
  it sends are appended to a trace.
\<close>

definition MAXARGS :: nat where
  "MAXARGS = 128"

definition MAXJOBS :: nat where
  "MAXJOBS = 100"

definition INT_MAX :: int where
  "INT_MAX = 2147483647"

datatype Status = UNINIT | RUNNING | STOPPED | TERMINATED

record job =
  pid :: int
  jid :: int
  st :: Status

datatype event =
    Printf string
  | Psignal int string
  | Unix_error string
  | Kill int int
  | Execve "string list"

record shell =
  jobs :: "job list"
  next_jid :: int
  fg_pid :: int
  trace :: "event list"

text \<open>Static storage is zero-initialised: every slot is \<open>{0, 0, UNINIT}\<close>.\<close>

definition zero_job :: job where
  "zero_job = \<lparr>pid = 0, jid = 0, st = UNINIT\<rparr>"

definition init_shell :: shell where
  "init_shell = \<lparr>jobs = replicate MAXJOBS zero_job, next_jid = 0, fg_pid = 0, trace = []\<rparr>"

text \<open>
  How a call ends: it returns, the shell exits (\<^verbatim>\<open>exit(0)\<close>, with the state it had),
  the C program has no defined behaviour or aborts (a read of an uninitialised local, a
  signed overflow, a write outside an array, a failed \<^verbatim>\<open>assert\<close>), or it waits for
  ever in a system call.
\<close>

datatype fault = Uninit_read | Signed_overflow | Out_of_bounds | Assert_failed

datatype 'a outcome = Ret 'a | Exit shell | Fault fault | Blocked

fun and_then :: "'a outcome \<Rightarrow> ('a \<Rightarrow> 'b outcome) \<Rightarrow> 'b outcome" where
  "and_then (Ret x) f = f x"
| "and_then (Exit sh) f = Exit sh"
| "and_then (Fault e) f = Fault e"
| "and_then Blocked f = Blocked"

definition log :: "event list \<Rightarrow> shell \<Rightarrow> shell" where
  "log es sh = sh\<lparr>trace := trace sh @ es\<rparr>"

text \<open>
  A local pointer variable of \<^verbatim>\<open>addjob\<close>: declared without an initialiser
  (\<^verbatim>\<open>job *free_job;\<close>), it holds no value until it is assigned. A pointer value is
  \<^verbatim>\<open>NULL\<close> or the address of a slot.
\<close>

datatype job_ptr = NULL | Slot nat

datatype 'a local_var = Unset | Val 'a

datatype scan = Found nat | Not_found "job_ptr local_var"

text \<open>
  The loop of \<^verbatim>\<open>addjob\<close>: at slot \<open>i\<close> the pid is compared first; a slot whose
  status is \<open>UNINIT\<close> or \<open>TERMINATED\<close> is remembered in \<open>free_job\<close> and the scan
  goes on, so the last such slot is the one kept.
\<close>

function addjob_loop :: "job list \<Rightarrow> int \<Rightarrow> nat \<Rightarrow> job_ptr local_var \<Rightarrow> scan" where
  "addjob_loop js p i free_job =
     (if i < MAXJOBS then
        (if pid (js ! i) = p then Found i
         else if st (js ! i) = UNINIT \<or> st (js ! i) = TERMINATED
           then addjob_loop js p (Suc i) (Val (Slot i))
           else addjob_loop js p (Suc i) free_job)
      else Not_found free_job)"
  by pat_completeness auto
termination
  by (relation "measure (\<lambda>(js, p, i, free_job). MAXJOBS - i)") auto

declare addjob_loop.simps [simp del]

text \<open>
  \<^verbatim>\<open>int addjob(pid_t pid, Status st)\<close>. After the loop the source tests
  \<^verbatim>\<open>free_job != NULL\<close>: when no slot was free the variable was never assigned and the
  test reads an uninitialised local. \<^verbatim>\<open>++next_jid\<close> on \<open>INT_MAX\<close> is a signed
  overflow.
\<close>

definition addjob :: "int \<Rightarrow> Status \<Rightarrow> shell \<Rightarrow> (int \<times> shell) outcome" where
  "addjob p s sh =
     (case addjob_loop (jobs sh) p 0 Unset of
        Found i \<Rightarrow>
          Ret (jid (jobs sh ! i), sh\<lparr>jobs := (jobs sh)[i := (jobs sh ! i)\<lparr>st := s\<rparr>]\<rparr>)
      | Not_found Unset \<Rightarrow> Fault Uninit_read
      | Not_found (Val NULL) \<Rightarrow> Ret (- 1, sh)
      | Not_found (Val (Slot i)) \<Rightarrow>
          (if next_jid sh = INT_MAX then Fault Signed_overflow
           else
             let j = next_jid sh + 1
             in Ret (j, sh\<lparr>jobs := (jobs sh)[i := (jobs sh ! i)\<lparr>jid := j, pid := p, st := s\<rparr>],
                         next_jid := j\<rparr>)))"

text \<open>\<^verbatim>\<open>int setjobstat(pid_t pid, Status st)\<close>: the first slot holding the pid.\<close>

function setjobstat_loop :: "job list \<Rightarrow> int \<Rightarrow> nat \<Rightarrow> nat option" where
  "setjobstat_loop js p i =
     (if i < MAXJOBS then
        (if pid (js ! i) = p then Some i else setjobstat_loop js p (Suc i))
      else None)"
  by pat_completeness auto
termination
  by (relation "measure (\<lambda>(js, p, i). MAXJOBS - i)") auto

declare setjobstat_loop.simps [simp del]

definition setjobstat :: "int \<Rightarrow> Status \<Rightarrow> shell \<Rightarrow> int \<times> shell" where
  "setjobstat p s sh =
     (case setjobstat_loop (jobs sh) p 0 of
        Some i \<Rightarrow> (jid (jobs sh ! i), sh\<lparr>jobs := (jobs sh)[i := (jobs sh ! i)\<lparr>st := s\<rparr>]\<rparr>)
      | None \<Rightarrow> (- 1, sh))"

text \<open>\<^verbatim>\<open>job *findjob(pid_t pid)\<close>: the same scan, returning the slot or \<^verbatim>\<open>NULL\<close>.\<close>

definition findjob :: "int \<Rightarrow> shell \<Rightarrow> job_ptr" where
  "findjob p sh = (case setjobstat_loop (jobs sh) p 0 of Some i \<Rightarrow> Slot i | None \<Rightarrow> NULL)"

text \<open>The test of the \<^verbatim>\<open>jobs\<close> built-in: \<^verbatim>\<open>j.st != TERMINATED && j.st != UNINIT\<close>.\<close>

definition live :: "job \<Rightarrow> bool" where
  "live j = (st j \<noteq> TERMINATED \<and> st j \<noteq> UNINIT)"

definition jstatus_str :: "Status \<Rightarrow> string" where
  "jstatus_str s =
     (case s of UNINIT \<Rightarrow> ''UNINIT'' | RUNNING \<Rightarrow> ''RUNNING''
      | STOPPED \<Rightarrow> ''STOPPED'' | TERMINATED \<Rightarrow> ''TERMINATED'')"

subsection \<open>Sequences of calls on the table\<close>

datatype call = Addjob int Status | Setjobstat int Status

text \<open>The calls run in order; the run stops where a call does not return.\<close>

fun run :: "shell \<Rightarrow> call list \<Rightarrow> shell outcome" where
  "run sh [] = Ret sh"
| "run sh (Addjob p s # cs) = and_then (addjob p s sh) (\<lambda>(j, sh'). run sh' cs)"
| "run sh (Setjobstat p s # cs) = run (snd (setjobstat p s sh)) cs"

text \<open>
  The job ids that the \<^verbatim>\<open>addjob\<close> calls of a run return for new slots, in order: a call
  allocates when no slot holds its pid (\<^verbatim>\<open>findjob\<close> gives \<^verbatim>\<open>NULL\<close>).
\<close>

fun issued :: "shell \<Rightarrow> call list \<Rightarrow> int list" where
  "issued sh [] = []"
| "issued sh (Addjob p s # cs) =
     (case addjob p s sh of
        Ret (j, sh') \<Rightarrow> (if findjob p sh = NULL then [j] else []) @ issued sh' cs
      | _ \<Rightarrow> [])"
| "issued sh (Setjobstat p s # cs) = issued (snd (setjobstat p s sh)) cs"

subsection \<open>The two updates of the table, and its invariant\<close>

text \<open>
  \<^verbatim>\<open>addjob\<close> and \<^verbatim>\<open>setjobstat\<close> change the table in two ways only: the status of a
  slot is set, or a slot is given a new pid, the status and the next jid.
\<close>

definition set_st :: "nat \<Rightarrow> Status \<Rightarrow> shell \<Rightarrow> shell" where
  "set_st k s sh = sh\<lparr>jobs := (jobs sh)[k := (jobs sh ! k)\<lparr>st := s\<rparr>]\<rparr>"

definition alloc :: "nat \<Rightarrow> int \<Rightarrow> Status \<Rightarrow> shell \<Rightarrow> shell" where
  "alloc k p s sh =
     sh\<lparr>jobs := (jobs sh)[k := (jobs sh ! k)\<lparr>jid := next_jid sh + 1, pid := p, st := s\<rparr>],
        next_jid := next_jid sh + 1\<rparr>"

text \<open>
  The invariant behind the uniqueness of live pids: of the slots that hold the same pid,
  every one but the first is \<open>UNINIT\<close> (which happens for the pid 0 of the slots never
  used).
\<close>

definition tracked_once :: "shell \<Rightarrow> bool" where
  "tracked_once sh =
     (length (jobs sh) = MAXJOBS \<and>
      (\<forall>i j. i < j \<longrightarrow> j < MAXJOBS \<longrightarrow> pid (jobs sh ! i) = pid (jobs sh ! j) \<longrightarrow>
         st (jobs sh ! j) = UNINIT))"

section \<open>Parsing\<close>

text \<open>
  A C string is the list of its characters before the terminating NUL, so \<^verbatim>\<open>*s\<close> is the
  head of the list, or NUL when the string is empty.
\<close>

definition first_char :: "string \<Rightarrow> char" where
  "first_char s = (case s of [] \<Rightarrow> CHR 0x00 | c # cs \<Rightarrow> c)"

subsection \<open>\<^verbatim>\<open>parse_int\<close>\<close>

text \<open>
  \<^verbatim>\<open>strtol(str, &endptr, 10)\<close> of the C library, as the C standard describes it: white
  space is skipped, a sign is optional, then come the decimal digits; \<^verbatim>\<open>endptr\<close> is left
  at the first character after them, or at \<^verbatim>\<open>str\<close> when there is no digit. The value is
  clamped to the range of \<^verbatim>\<open>long\<close> (64 bits here). The result is the value and the string at
  \<^verbatim>\<open>endptr\<close>.
\<close>

definition isspace :: "char \<Rightarrow> bool" where
  "isspace c = (c \<in> set [CHR '' '', CHR 0x09, CHR 0x0A, CHR 0x0B, CHR 0x0C, CHR 0x0D])"

definition isdigit :: "char \<Rightarrow> bool" where
  "isdigit c = (c \<in> set ''0123456789'')"

definition digit_val :: "char \<Rightarrow> int" where
  "digit_val c = of_char c - 48"

definition LONG_MAX :: int where
  "LONG_MAX = 9223372036854775807"

definition LONG_MIN :: int where
  "LONG_MIN = - 9223372036854775808"

definition strtol :: "string \<Rightarrow> int \<times> string" where
  "strtol str =
     (let s1 = dropWhile isspace str;
          neg = (first_char s1 = CHR ''-'');
          s2 = (if first_char s1 = CHR ''-'' \<or> first_char s1 = CHR ''+'' then tl s1 else s1);
          ds = takeWhile isdigit s2;
          v = foldl (\<lambda>a c. 10 * a + digit_val c) 0 ds
      in if ds = [] then (0, str)
         else (if neg then max LONG_MIN (- v) else min LONG_MAX v, dropWhile isdigit s2))"

text \<open>The conversion \<^verbatim>\<open>(int)\<close> of a \<^verbatim>\<open>long\<close>: the low 32 bits, read as two's complement.\<close>

definition int_of_long :: "int \<Rightarrow> int" where
  "int_of_long v = (v + 2 ^ 31) mod 2 ^ 32 - 2 ^ 31"

definition parse_int :: "string \<Rightarrow> int" where
  "parse_int str =
     (let (v, endptr) = strtol str
      in if first_char endptr \<noteq> CHR 0x00 then - 1 else int_of_long v)"

subsection \<open>\<^verbatim>\<open>parse_pid\<close>\<close>

text \<open>
  Both loops start with the test \<^verbatim>\<open>j->st == TERMINATED && j->st == UNINIT\<close>, written here
  as in the source.
\<close>

function parse_pid_jid_loop :: "job list \<Rightarrow> int \<Rightarrow> nat \<Rightarrow> int" where
  "parse_pid_jid_loop js j i =
     (if i < MAXJOBS then
        (if st (js ! i) = TERMINATED \<and> st (js ! i) = UNINIT then - 1
         else if jid (js ! i) = j then pid (js ! i)
         else parse_pid_jid_loop js j (Suc i))
      else - 1)"
  by pat_completeness auto
termination
  by (relation "measure (\<lambda>(js, j, i). MAXJOBS - i)") auto

declare parse_pid_jid_loop.simps [simp del]

function parse_pid_pid_loop :: "job list \<Rightarrow> int \<Rightarrow> nat \<Rightarrow> int" where
  "parse_pid_pid_loop js p i =
     (if i < MAXJOBS then
        (if st (js ! i) = TERMINATED \<and> st (js ! i) = UNINIT then - 1
         else if pid (js ! i) = p then p
         else parse_pid_pid_loop js p (Suc i))
      else - 1)"
  by pat_completeness auto
termination
  by (relation "measure (\<lambda>(js, p, i). MAXJOBS - i)") auto

declare parse_pid_pid_loop.simps [simp del]

definition parse_pid :: "string \<Rightarrow> shell \<Rightarrow> int" where
  "parse_pid s sh =
     (if first_char s = CHR ''%'' then
        (let j = parse_int (tl s)
         in if j \<le> 0 then - 1 else parse_pid_jid_loop (jobs sh) j 0)
      else parse_pid_pid_loop (jobs sh) (parse_int s) 0)"

subsection \<open>\<^verbatim>\<open>parseline\<close>\<close>

definition skip_spaces :: "string \<Rightarrow> string" where
  "skip_spaces buf = dropWhile (\<lambda>c. c = CHR '' '') buf"

text \<open>
  The loop \<^verbatim>\<open>while ((delim = strchr(buf, ' ')))\<close>: the token runs up to the first space,
  the scan goes on after the spaces that follow it.
\<close>

function split_loop :: "string \<Rightarrow> string list" where
  "split_loop buf =
     (if CHR '' '' \<in> set buf then
        takeWhile (\<lambda>c. c \<noteq> CHR '' '') buf #
        split_loop (skip_spaces (tl (dropWhile (\<lambda>c. c \<noteq> CHR '' '') buf)))
      else [])"
  by pat_completeness auto
termination
proof (relation "measure length")
  show "wf (measure length)" by simp
next
  fix buf :: string
  assume sp: "CHR '' '' \<in> set buf"
  let ?rest = "dropWhile (\<lambda>c. c \<noteq> CHR '' '') buf"
  from sp have "?rest \<noteq> []" by (auto simp: dropWhile_eq_Nil_conv)
  then have "length (tl ?rest) < length ?rest" by (cases ?rest) auto
  moreover have "length ?rest \<le> length buf" by (rule length_dropWhile_le)
  moreover have "length (skip_spaces (tl ?rest)) \<le> length (tl ?rest)"
    unfolding skip_spaces_def by (rule length_dropWhile_le)
  ultimately show "(skip_spaces (tl ?rest), buf) \<in> measure length" by simp
qed

declare split_loop.simps [simp del]

text \<open>
  \<^verbatim>\<open>int parseline(char *buf, char **argv)\<close>: the last character of the line (the newline
  that \<^verbatim>\<open>fgets\<close> kept) becomes a space. \<^verbatim>\<open>buf[strlen(buf) - 1]\<close> on an empty line and a
  write at \<^verbatim>\<open>argv[MAXARGS]\<close> or beyond are outside the arrays. The result is the flag and
  the vector up to its \<^verbatim>\<open>NULL\<close>. The test of the last token is on its first character:
  \<^verbatim>\<open>*argv[argc - 1] == '&'\<close>.
\<close>

definition parseline :: "string \<Rightarrow> (int \<times> string list) outcome" where
  "parseline buf0 =
     (if buf0 = [] then Fault Out_of_bounds
      else
        let buf = skip_spaces (butlast buf0 @ '' '');
            argv = split_loop buf;
            argc = length argv
        in if MAXARGS \<le> argc then Fault Out_of_bounds
           else if argc = 0 then Ret (1, [])
           else if first_char (argv ! (argc - 1)) = CHR ''&'' then Ret (1, take (argc - 1) argv)
           else Ret (0, argv))"

section \<open>Running commands\<close>

subsection \<open>What the shell prints\<close>

text \<open>The conversion \<^verbatim>\<open>%d\<close> of \<^verbatim>\<open>printf\<close>.\<close>

fun show_nat :: "nat \<Rightarrow> string" where
  "show_nat n =
     (if n < 10 then [''0123456789'' ! n]
      else show_nat (n div 10) @ [''0123456789'' ! (n mod 10)])"

declare show_nat.simps [simp del]

definition show_int :: "int \<Rightarrow> string" where
  "show_int i = (if i < 0 then CHR ''-'' # show_nat (nat (- i)) else show_nat (nat i))"

subsection \<open>The operating system\<close>

text \<open>
  A wait status is read through the macros \<^verbatim>\<open>WIFEXITED\<close>, \<^verbatim>\<open>WIFSIGNALED\<close>,
  \<^verbatim>\<open>WIFSTOPPED\<close> and \<^verbatim>\<open>WIFCONTINUED\<close>, of which exactly one holds, and through
  \<^verbatim>\<open>WTERMSIG\<close> and \<^verbatim>\<open>WSTOPSIG\<close>.
\<close>

datatype wstatus = WExited int | WSignaled int | WStopped int | WContinued

definition WIFEXITED :: "wstatus \<Rightarrow> bool" where
  "WIFEXITED w = (case w of WExited c \<Rightarrow> True | _ \<Rightarrow> False)"

definition WIFSIGNALED :: "wstatus \<Rightarrow> bool" where
  "WIFSIGNALED w = (case w of WSignaled n \<Rightarrow> True | _ \<Rightarrow> False)"

definition WIFSTOPPED :: "wstatus \<Rightarrow> bool" where
  "WIFSTOPPED w = (case w of WStopped n \<Rightarrow> True | _ \<Rightarrow> False)"

definition WTERMSIG :: "wstatus \<Rightarrow> int" where
  "WTERMSIG w = (case w of WSignaled n \<Rightarrow> n | _ \<Rightarrow> 0)"

definition WSTOPSIG :: "wstatus \<Rightarrow> int" where
  "WSTOPSIG w = (case w of WStopped n \<Rightarrow> n | _ \<Rightarrow> 0)"

definition SIGINT :: int where
  "SIGINT = 2"

definition SIGCONT :: int where
  "SIGCONT = 18"

definition SIGTSTP :: int where
  "SIGTSTP = 20"

text \<open>
  What the system calls of one \<^verbatim>\<open>eval\<close> return: \<^verbatim>\<open>kill\<close>, \<^verbatim>\<open>fork\<close>, in the child
  \<^verbatim>\<open>setpgid\<close> and \<^verbatim>\<open>execve\<close>, and the blocking \<^verbatim>\<open>waitpid(pid, &status, WUNTRACED)\<close> of
  \<^verbatim>\<open>run_fg\<close> (\<open>None\<close> when it returns a negative value, else the status it stores).
\<close>

record os =
  kill_ret :: int
  fork_ret :: int
  setpgid_ret :: int
  execve_ret :: int
  waitpid_ret :: "wstatus option"

text \<open>\<^verbatim>\<open>unix_error\<close> prints the message and calls \<^verbatim>\<open>exit(0)\<close>.\<close>

definition unix_error :: "string \<Rightarrow> shell \<Rightarrow> 'a outcome" where
  "unix_error msg sh = Exit (log [Unix_error msg] sh)"

subsection \<open>\<^verbatim>\<open>run_fg\<close> and \<^verbatim>\<open>run_bg\<close>\<close>

text \<open>
  \<^verbatim>\<open>void run_fg(pid_t pid)\<close>. \<^verbatim>\<open>fg_pid = 0\<close> stands twice in the source, both times in
  the branch of a stopped child; the other two branches do not assign it.
\<close>

definition run_fg :: "wstatus option \<Rightarrow> int \<Rightarrow> shell \<Rightarrow> shell outcome" where
  "run_fg w p sh0 =
     (let sh = sh0\<lparr>fg_pid := p\<rparr>
      in case w of
           None \<Rightarrow> unix_error ''waitpid error'' sh
         | Some status \<Rightarrow>
             if WIFSIGNALED status then
               (let (j, sh1) = setjobstat p TERMINATED sh;
                    sigbuf =
                      (if j \<noteq> - 1
                       then ''Job ['' @ show_int j @ ''] '' @ show_int p @ '' terminated by signal''
                       else ''Job [-] '' @ show_int p @ '' terminated by signal'')
                in Ret (log [Psignal (WTERMSIG status) sigbuf] sh1))
             else if WIFSTOPPED status then
               and_then (addjob p STOPPED (sh\<lparr>fg_pid := 0\<rparr>))
                 (\<lambda>(j, sh1).
                    if j < 0 then Exit (log [Printf ''Could not add new job\<newline>''] sh1)
                    else
                      Ret (log [Psignal (WSTOPSIG status)
                                  (''Job ['' @ show_int j @ ''] '' @ show_int p @ '' stopped by signal'')]
                             (sh1\<lparr>fg_pid := 0\<rparr>)))
             else Ret sh)"

definition run_bg :: "int \<Rightarrow> string \<Rightarrow> shell \<Rightarrow> shell outcome" where
  "run_bg p cmd sh =
     and_then (addjob p RUNNING (sh\<lparr>fg_pid := 0\<rparr>))
       (\<lambda>(j, sh1).
          if j < 0 then Exit (log [Printf ''Could not add new job\<newline>''] sh1)
          else Ret (log [Printf (''['' @ show_int j @ ''] '' @ show_int p @ '' '' @ cmd @ ''\<newline>'')] sh1))"

subsection \<open>\<^verbatim>\<open>builtin_command\<close> and \<^verbatim>\<open>eval\<close>\<close>

definition builtin_command :: "string list \<Rightarrow> shell \<Rightarrow> (int \<times> shell) outcome" where
  "builtin_command argv sh =
     (if argv ! 0 = ''quit'' then Exit sh
      else if argv ! 0 = ''jobs'' then
        Ret (1, log (map (\<lambda>j. Printf (''['' @ show_int (jid j) @ ''] '' @ show_int (pid j) @ '' '' @
                                        jstatus_str (st j) @ ''\<newline>''))
                        (filter (\<lambda>j. st j \<noteq> TERMINATED \<and> st j \<noteq> UNINIT)
                           (map (\<lambda>i. jobs sh ! i) [0 ..< MAXJOBS]))) sh)
      else Ret (0, sh))"

text \<open>
  \<^verbatim>\<open>void eval(char *cmdline)\<close>. The vector is the list of the tokens before its \<^verbatim>\<open>NULL\<close>,
  so \<^verbatim>\<open>argv[0] == NULL\<close> is \<open>argv = []\<close> and \<^verbatim>\<open>argv[1] == NULL\<close> is \<open>length argv = 1\<close>.
  After \<^verbatim>\<open>fork\<close> the child (\<open>fork_ret = 0\<close>) leaves the code of the shell: it becomes
  the program, or prints that the command was not found and exits.
\<close>

definition eval :: "os \<Rightarrow> string \<Rightarrow> shell \<Rightarrow> shell outcome" where
  "eval os cmdline sh =
     and_then (parseline cmdline)
       (\<lambda>(bg, argv).
          if argv = [] then Ret sh
          else if argv ! 0 = ''&'' then Ret sh
          else if argv ! 0 = ''fg'' then
            (if length argv = 1 then Ret sh
             else
               let stp_pid = parse_pid (argv ! 1) sh
               in if stp_pid > 0 then
                    (if kill_ret os < 0
                     then unix_error ''Forward SIGCONT error'' (log [Kill stp_pid SIGCONT] sh)
                     else run_fg (waitpid_ret os) stp_pid (log [Kill stp_pid SIGCONT] sh))
                  else Ret (log [Printf (argv ! 1 @ '': No such process\<newline>'')] sh))
          else if argv ! 0 = ''bg'' then
            (if length argv = 1 then Ret sh
             else
               let stp_pid = parse_pid (argv ! 1) sh
               in if stp_pid > 0 then
                    (if kill_ret os < 0
                     then unix_error ''Forward SIGCONT error'' (log [Kill stp_pid SIGCONT] sh)
                     else run_bg stp_pid '''' (log [Kill stp_pid SIGCONT] sh))
                  else Ret (log [Printf (argv ! 1 @ '': No such process\<newline>'')] sh))
          else
            and_then (builtin_command argv sh)
              (\<lambda>(r, sh1).
                 if r = 0 then
                   (if fork_ret os < 0 then unix_error ''Fork error'' sh1
                    else if fork_ret os = 0 then
                      (if setpgid_ret os < 0 then unix_error ''setpgid error'' sh1
                       else if execve_ret os < 0
                       then Exit (log [Execve argv,
                                       Printf (argv ! 0 @ '': Command not found.\<newline>'')] sh1)
                       else Exit (log [Execve argv] sh1))
                    else if bg = 0 then run_fg (waitpid_ret os) (fork_ret os) sh1
                    else run_bg (fork_ret os) cmdline sh1)
                 else Ret sh1))"

subsection \<open>The signal handlers\<close>

text \<open>
  \<^verbatim>\<open>void forward_signal(int sig)\<close>, the handler of \<^verbatim>\<open>SIGINT\<close> and \<^verbatim>\<open>SIGTSTP\<close>; its
  first argument here is what \<^verbatim>\<open>kill\<close> returns.
\<close>

definition forward_signal :: "int \<Rightarrow> int \<Rightarrow> shell \<Rightarrow> shell outcome" where
  "forward_signal kill_result sig sh =
     (if fg_pid sh \<noteq> 0 then
        (let sh1 = log [Printf (''[ForwardSignalHandler] forwarding sig '' @ show_int sig @
                                 '' to '' @ show_int (fg_pid sh) @ ''\<newline>''),
                        Kill (fg_pid sh) sig] sh
         in if kill_result < 0 then unix_error ''Forward SIGINT|SIGTSTP error'' sh1 else Ret sh1)
      else Ret sh)"

text \<open>
  The children as \<^verbatim>\<open>waitpid(-1, &status, options)\<close> sees them: the state changes not yet
  collected, oldest first, and whether a child is left once they are collected. The call
  takes the first change that the options report (a stop only with \<^verbatim>\<open>WUNTRACED\<close>, a
  continue only with \<^verbatim>\<open>WCONTINUED\<close>). With none to take it fails with \<^verbatim>\<open>ECHILD\<close> when
  the caller has no child, returns 0 under \<^verbatim>\<open>WNOHANG\<close>, and waits otherwise.
\<close>

datatype wait_option = WNOHANG | WUNTRACED | WCONTINUED

datatype errno = ECHILD | EINTR | EINVAL

datatype wait_result = Reaped int wstatus | No_change | Wait_error errno | Would_wait

record kernel =
  pending :: "(int \<times> wstatus) list"
  child_left :: bool

definition reported :: "wait_option set \<Rightarrow> int \<times> wstatus \<Rightarrow> bool" where
  "reported opts e =
     (case snd e of
        WStopped n \<Rightarrow> WUNTRACED \<in> opts
      | WContinued \<Rightarrow> WCONTINUED \<in> opts
      | _ \<Rightarrow> True)"

definition waitpid_any :: "wait_option set \<Rightarrow> kernel \<Rightarrow> wait_result \<times> kernel" where
  "waitpid_any opts k =
     (case find (reported opts) (pending k) of
        Some e \<Rightarrow> (Reaped (fst e) (snd e), k\<lparr>pending := remove1 e (pending k)\<rparr>)
      | None \<Rightarrow>
          if pending k = [] \<and> \<not> child_left k then (Wait_error ECHILD, k)
          else if WNOHANG \<in> opts then (No_change, k)
          else (Would_wait, k))"

text \<open>The status that \<^verbatim>\<open>reap_child\<close> gives a reaped child.\<close>

definition reaped_status :: "wstatus \<Rightarrow> Status" where
  "reaped_status status =
     (if WIFEXITED status \<or> WIFSIGNALED status then TERMINATED
      else if WIFSTOPPED status then STOPPED
      else RUNNING)"

definition reap_one :: "int \<Rightarrow> wstatus \<Rightarrow> shell \<Rightarrow> shell" where
  "reap_one p status sh =
     snd (setjobstat p (reaped_status status)
            (log [Printf (''[ReapChildHandler] setjobstat '' @ show_int p @ '' to '' @
                          jstatus_str (reaped_status status) @ ''\<newline>'')] sh))"

text \<open>
  The loop \<^verbatim>\<open>while ((pid = waitpid(-1, &status, WNOHANG | WUNTRACED | WCONTINUED)) > 0)\<close>;
  it gives what the last call returned, the children and the shell.
\<close>

function reap_loop :: "kernel \<Rightarrow> shell \<Rightarrow> wait_result \<times> kernel \<times> shell" where
  "reap_loop k sh =
     (case waitpid_any {WNOHANG, WUNTRACED, WCONTINUED} k of
        (Reaped p status, k') \<Rightarrow>
          if p > 0 then reap_loop k' (reap_one p status sh) else (Reaped p status, k', sh)
      | (r, k') \<Rightarrow> (r, k', sh))"
  by pat_completeness auto
termination
proof (relation "measure (\<lambda>(k, sh). length (pending k))")
  show "wf (measure (\<lambda>(k, sh). length (pending k)))" by simp
next
  fix k :: kernel and sh :: shell and r k' p status
  assume "(r, k') = waitpid_any {WNOHANG, WUNTRACED, WCONTINUED} k" "r = Reaped p status" "0 < p"
  then have w: "waitpid_any {WNOHANG, WUNTRACED, WCONTINUED} k = (Reaped p status, k')" by simp
  then obtain e where e: "find (reported {WNOHANG, WUNTRACED, WCONTINUED}) (pending k) = Some e"
    and k': "k' = k\<lparr>pending := remove1 e (pending k)\<rparr>"
    by (auto simp: waitpid_any_def split: option.splits if_splits)
  from e have e_in: "e \<in> set (pending k)" by (auto simp: find_Some_iff)
  then have "0 < length (pending k)" by (rule length_pos_if_in_set)
  with e_in have "length (remove1 e (pending k)) < length (pending k)"
    by (simp add: length_remove1)
  with k' show "((k', reap_one p status sh), k, sh) \<in> measure (\<lambda>(k, sh). length (pending k))"
    by simp
qed

declare reap_loop.simps [simp del]

text \<open>
  \<^verbatim>\<open>void reap_child(int sig)\<close>, the handler of \<^verbatim>\<open>SIGCHLD\<close>. After the loop it asserts
  \<^verbatim>\<open>pid == 0 || errno == ECHILD\<close>. (It blocks every signal while it runs; the signal
  mask is not part of this state.)
\<close>

definition reap_child :: "kernel \<Rightarrow> shell \<Rightarrow> (kernel \<times> shell) outcome" where
  "reap_child k sh =
     (case reap_loop k sh of
        (No_change, k', sh') \<Rightarrow> Ret (k', sh')
      | (Wait_error e, k', sh') \<Rightarrow> if e = ECHILD then Ret (k', sh') else Fault Assert_failed
      | (Would_wait, k', sh') \<Rightarrow> Blocked
      | (Reaped p status, k', sh') \<Rightarrow> if p = 0 then Ret (k', sh') else Fault Assert_failed)"

subsection \<open>The earlier draft of the program\<close>

text \<open>
  The repository also holds an earlier draft of the same shell (\<^verbatim>\<open>826.c\<close>). Its
  \<^verbatim>\<open>addjob\<close>, \<^verbatim>\<open>parse_int\<close>, \<^verbatim>\<open>parse_pid\<close>, \<^verbatim>\<open>parseline\<close> and \<^verbatim>\<open>run_bg\<close> are those
  above, and so is \<^verbatim>\<open>eval\<close> but for the wording of one error message; \<^verbatim>\<open>builtin_command\<close>
  prints \<^verbatim>\<open>argv[0]\<close> first; there is no \<^verbatim>\<open>setjobstat\<close>. Three functions differ in what
  they do: \<^verbatim>\<open>reap_child\<close> is a stub under a \<^verbatim>\<open>TODO\<close>, \<^verbatim>\<open>run_fg\<close> prints its notices
  without a job id and leaves the table alone, and \<^verbatim>\<open>forward_signal\<close> registers the
  foreground process itself.
\<close>

definition reap_child_826 :: "shell \<Rightarrow> shell" where
  "reap_child_826 sh = log [Printf ''reap child handler''] sh"

definition run_fg_826 :: "wstatus option \<Rightarrow> int \<Rightarrow> shell \<Rightarrow> shell outcome" where
  "run_fg_826 w p sh0 =
     (let sh = sh0\<lparr>fg_pid := p\<rparr>
      in case w of
           None \<Rightarrow> unix_error ''waitpid error'' sh
         | Some status \<Rightarrow>
             if WIFSIGNALED status then
               Ret (log [Psignal (WTERMSIG status)
                           (''Job [-] '' @ show_int p @ '' terminated by signal'')] sh)
             else if WIFSTOPPED status then
               Ret (log [Psignal (WSTOPSIG status)
                           (''Job [-] '' @ show_int p @ '' stopped by signal'')] sh)
             else Ret sh)"

definition forward_signal_826 :: "int \<Rightarrow> int \<Rightarrow> shell \<Rightarrow> shell outcome" where
  "forward_signal_826 kill_result sig sh =
     (if fg_pid sh \<noteq> 0 then
        (let sh1 = log [Printf (''forwarding sig '' @ show_int sig @ '' to '' @
                                 show_int (fg_pid sh) @ ''\<newline>''),
                        Kill (fg_pid sh) sig] sh
         in if kill_result < 0 then unix_error ''Forward signal error'' sh1
            else and_then (addjob (fg_pid sh) (if sig = SIGINT then TERMINATED else STOPPED) sh1)
                   (\<lambda>(j, sh2). Ret sh2))
      else Ret sh)"

section \<open>Scenarios and reference definitions\<close>

text \<open>A job has finished and was reaped: its slot is \<open>TERMINATED\<close> and keeps pid and jid.\<close>

definition stale_shell :: shell where
  "stale_shell =
     init_shell\<lparr>jobs := (jobs init_shell)[99 := \<lparr>pid = 5, jid = 1, st = TERMINATED\<rparr>],
                next_jid := 1\<rparr>"

text \<open>A table with no free slot: a hundred running children with the pids 1 to 100.\<close>

definition full_calls :: "call list" where
  "full_calls = map (\<lambda>k. Addjob (int k) RUNNING) [1 ..< Suc MAXJOBS]"

definition full_shell :: shell where
  "full_shell =
     \<lparr>jobs = map (\<lambda>k. \<lparr>pid = int k, jid = int k, st = RUNNING\<rparr>) (rev [1 ..< Suc MAXJOBS]),
      next_jid = 100, fg_pid = 0, trace = []\<rparr>"

text \<open>
  Two tracked jobs: pid 5 was marked \<open>TERMINATED\<close> and then registered again (job 1,
  running), pid 7 is stopped (job 2).
\<close>

definition two_jobs_calls :: "call list" where
  "two_jobs_calls =
     [Addjob 5 RUNNING, Addjob 7 RUNNING, Setjobstat 5 TERMINATED, Setjobstat 7 STOPPED,
      Addjob 5 RUNNING]"

definition two_jobs_shell :: shell where
  "two_jobs_shell =
     init_shell\<lparr>jobs := (jobs init_shell)[99 := \<lparr>pid = 5, jid = 1, st = RUNNING\<rparr>,
                                           98 := \<lparr>pid = 7, jid = 2, st = STOPPED\<rparr>],
                next_jid := 2\<rparr>"

text \<open>A job finishes and the next one is given its slot.\<close>

definition recycle_calls :: "call list" where
  "recycle_calls = [Addjob 5 RUNNING, Setjobstat 5 TERMINATED, Addjob 6 RUNNING]"

text \<open>System calls as they return once the process signalled no longer exists.\<close>

definition os_gone :: os where
  "os_gone = \<lparr>kill_ret = - 1, fork_ret = 42, setpgid_ret = 0, execve_ret = 0,
              waitpid_ret = Some (WExited 0)\<rparr>"

text \<open>Four state changes of three children wait to be collected.\<close>

definition three_changes :: kernel where
  "three_changes =
     \<lparr>pending = [(5, WExited 0), (7, WContinued), (9, WSignaled 9), (7, WStopped 20)],
      child_left = True\<rparr>"

text \<open>\<^verbatim>\<open>setjobstat\<close> for each collected change, in order, and nothing else.\<close>

definition set_status_all :: "(int \<times> wstatus) list \<Rightarrow> shell \<Rightarrow> shell" where
  "set_status_all es sh = foldl (\<lambda>s e. snd (setjobstat (fst e) (reaped_status (snd e)) s)) sh es"

text \<open>
  The tokens of a line as the specification speaks of them, apart from the loop of
  \<^verbatim>\<open>parseline\<close>: the line is cut at every space and the empty pieces are dropped, so
  a token is a maximal run of characters other than the space.
\<close>

fun split_spaces :: "string \<Rightarrow> string list" where
  "split_spaces [] = [[]]"
| "split_spaces (c # cs) =
     (if c = CHR '' '' then [] # split_spaces cs
      else (case split_spaces cs of [] \<Rightarrow> [[c]] | w # ws \<Rightarrow> (c # w) # ws))"

definition tokens :: "string \<Rightarrow> string list" where
  "tokens s = filter (\<lambda>w. w \<noteq> []) (split_spaces s)"

section \<open>Properties of the job table\<close>

subsection \<open>The scans\<close>

lemma setjobstat_loop_Some:
  "setjobstat_loop js p i = Some k \<Longrightarrow>
     i \<le> k \<and> k < MAXJOBS \<and> pid (js ! k) = p \<and> (\<forall>m. i \<le> m \<longrightarrow> m < k \<longrightarrow> pid (js ! m) \<noteq> p)"
proof (induction js p i rule: setjobstat_loop.induct)
  case (1 js p i)
  show ?case
  proof (cases "i < MAXJOBS \<and> pid (js ! i) \<noteq> p")
    case True
    with "1.prems" have "setjobstat_loop js p (Suc i) = Some k"
      by (simp add: setjobstat_loop.simps [of js p i])
    with "1.IH" True have ih: "Suc i \<le> k \<and> k < MAXJOBS \<and> pid (js ! k) = p \<and>
        (\<forall>m. Suc i \<le> m \<longrightarrow> m < k \<longrightarrow> pid (js ! m) \<noteq> p)"
      by blast
    have "\<forall>m. i \<le> m \<longrightarrow> m < k \<longrightarrow> pid (js ! m) \<noteq> p"
    proof (intro allI impI)
      fix m assume "i \<le> m" "m < k"
      then show "pid (js ! m) \<noteq> p"
        using ih True by (cases "m = i") auto
    qed
    with ih show ?thesis by simp
  next
    case False
    with "1.prems" show ?thesis
      by (auto simp: setjobstat_loop.simps [of js p i] split: if_splits)
  qed
qed

lemma setjobstat_loop_None:
  "setjobstat_loop js p i = None \<Longrightarrow> i \<le> m \<Longrightarrow> m < MAXJOBS \<Longrightarrow> pid (js ! m) \<noteq> p"
proof (induction js p i rule: setjobstat_loop.induct)
  case (1 js p i)
  from "1.prems" have a: "i < MAXJOBS" "pid (js ! i) \<noteq> p" "setjobstat_loop js p (Suc i) = None"
    by (auto simp: setjobstat_loop.simps [of js p i] split: if_splits)
  show ?case
  proof (cases "m = i")
    case True
    with a show ?thesis by simp
  next
    case False
    with "1.prems" have "Suc i \<le> m" by simp
    with "1.IH" a "1.prems" show ?thesis by blast
  qed
qed

lemma setjobstat_loop_first:
  assumes "k < MAXJOBS" "pid (js ! k) = p" "\<forall>m<k. pid (js ! m) \<noteq> p"
  shows "setjobstat_loop js p 0 = Some k"
proof (cases "setjobstat_loop js p 0")
  case None
  from setjobstat_loop_None [OF None, of k] assms show ?thesis by simp
next
  case (Some k')
  from setjobstat_loop_Some [OF Some]
  have k': "k' < MAXJOBS" "pid (js ! k') = p" "\<forall>m<k'. pid (js ! m) \<noteq> p" by auto
  have "k' = k"
  proof (rule ccontr)
    assume "k' \<noteq> k"
    then have "k' < k \<or> k < k'" by arith
    with k' assms show False by auto
  qed
  with Some show ?thesis by simp
qed

lemma addjob_loop_Found:
  "addjob_loop js p i f = Found k \<longleftrightarrow> setjobstat_loop js p i = Some k"
proof (induction js p i f rule: addjob_loop.induct)
  case (1 js p i f)
  show ?case
    using "1.IH"
    by (simp add: addjob_loop.simps [of js p i f] setjobstat_loop.simps [of js p i])
qed

lemma addjob_loop_Not_found:
  "addjob_loop js p i f = Not_found f' \<Longrightarrow>
     (f' = f \<and> (\<forall>m. i \<le> m \<longrightarrow> m < MAXJOBS \<longrightarrow> live (js ! m))) \<or>
     (\<exists>k. f' = Val (Slot k) \<and> i \<le> k \<and> k < MAXJOBS \<and> \<not> live (js ! k) \<and>
          (\<forall>m. k < m \<longrightarrow> m < MAXJOBS \<longrightarrow> live (js ! m)))"
proof (induction js p i f rule: addjob_loop.induct)
  case (1 js p i f)
  let ?tail = "\<lambda>n g. (f' = g \<and> (\<forall>m. n \<le> m \<longrightarrow> m < MAXJOBS \<longrightarrow> live (js ! m))) \<or>
     (\<exists>k. f' = Val (Slot k) \<and> n \<le> k \<and> k < MAXJOBS \<and> \<not> live (js ! k) \<and>
          (\<forall>m. k < m \<longrightarrow> m < MAXJOBS \<longrightarrow> live (js ! m)))"
  show ?case
  proof (cases "i < MAXJOBS")
    case False
    with "1.prems" show ?thesis
      by (simp add: addjob_loop.simps [of js p i f])
  next
    case lt: True
    from "1.prems" lt have ne: "pid (js ! i) \<noteq> p"
      by (auto simp: addjob_loop.simps [of js p i f] split: if_splits)
    show ?thesis
    proof (cases "live (js ! i)")
      case False
      with "1.prems" lt ne have "addjob_loop js p (Suc i) (Val (Slot i)) = Not_found f'"
        by (auto simp: addjob_loop.simps [of js p i f] live_def)
      with "1.IH"(1) lt ne False have "?tail (Suc i) (Val (Slot i))"
        by (auto simp: live_def)
      then show ?thesis
      proof
        assume a: "f' = Val (Slot i) \<and> (\<forall>m. Suc i \<le> m \<longrightarrow> m < MAXJOBS \<longrightarrow> live (js ! m))"
        have "f' = Val (Slot i) \<and> i \<le> i \<and> i < MAXJOBS \<and> \<not> live (js ! i) \<and>
          (\<forall>m. i < m \<longrightarrow> m < MAXJOBS \<longrightarrow> live (js ! m))"
          using a lt False by (simp add: Suc_le_eq)
        then show ?thesis by blast
      next
        assume "\<exists>k. f' = Val (Slot k) \<and> Suc i \<le> k \<and> k < MAXJOBS \<and> \<not> live (js ! k) \<and>
          (\<forall>m. k < m \<longrightarrow> m < MAXJOBS \<longrightarrow> live (js ! m))"
        then obtain k where "f' = Val (Slot k)" "Suc i \<le> k" "k < MAXJOBS" "\<not> live (js ! k)"
          "\<forall>m. k < m \<longrightarrow> m < MAXJOBS \<longrightarrow> live (js ! m)" by blast
        then have "f' = Val (Slot k) \<and> i \<le> k \<and> k < MAXJOBS \<and> \<not> live (js ! k) \<and>
          (\<forall>m. k < m \<longrightarrow> m < MAXJOBS \<longrightarrow> live (js ! m))" by simp
        then show ?thesis by blast
      qed
    next
      case True
      with "1.prems" lt ne have "addjob_loop js p (Suc i) f = Not_found f'"
        by (auto simp: addjob_loop.simps [of js p i f] live_def)
      with "1.IH"(2) lt ne True have "?tail (Suc i) f"
        by (auto simp: live_def)
      then show ?thesis
      proof
        assume a: "f' = f \<and> (\<forall>m. Suc i \<le> m \<longrightarrow> m < MAXJOBS \<longrightarrow> live (js ! m))"
        have "\<forall>m. i \<le> m \<longrightarrow> m < MAXJOBS \<longrightarrow> live (js ! m)"
        proof (intro allI impI)
          fix m assume "i \<le> m" "m < MAXJOBS"
          then show "live (js ! m)" using a True by (cases "m = i") auto
        qed
        with a show ?thesis by blast
      next
        assume "\<exists>k. f' = Val (Slot k) \<and> Suc i \<le> k \<and> k < MAXJOBS \<and> \<not> live (js ! k) \<and>
          (\<forall>m. k < m \<longrightarrow> m < MAXJOBS \<longrightarrow> live (js ! m))"
        then obtain k where "f' = Val (Slot k)" "Suc i \<le> k" "k < MAXJOBS" "\<not> live (js ! k)"
          "\<forall>m. k < m \<longrightarrow> m < MAXJOBS \<longrightarrow> live (js ! m)" by blast
        then have "f' = Val (Slot k) \<and> i \<le> k \<and> k < MAXJOBS \<and> \<not> live (js ! k) \<and>
          (\<forall>m. k < m \<longrightarrow> m < MAXJOBS \<longrightarrow> live (js ! m))" by simp
        then show ?thesis by blast
      qed
    qed
  qed
qed

subsection \<open>What \<^verbatim>\<open>addjob\<close> and \<^verbatim>\<open>setjobstat\<close> do\<close>

lemma addjob_Found:
  "setjobstat_loop (jobs sh) p 0 = Some k \<Longrightarrow> addjob p s sh = Ret (jid (jobs sh ! k), set_st k s sh)"
  by (simp add: addjob_def set_st_def addjob_loop_Found [THEN iffD2])

lemma setjobstat_Some:
  "setjobstat_loop (jobs sh) p 0 = Some k \<Longrightarrow> setjobstat p s sh = (jid (jobs sh ! k), set_st k s sh)"
  by (simp add: setjobstat_def set_st_def)

lemma setjobstat_None:
  "setjobstat_loop (jobs sh) p 0 = None \<Longrightarrow> setjobstat p s sh = (- 1, sh)"
  by (simp add: setjobstat_def)

lemma addjob_None:
  assumes "setjobstat_loop (jobs sh) p 0 = None"
  shows "((\<forall>m<MAXJOBS. live (jobs sh ! m)) \<and> addjob p s sh = Fault Uninit_read) \<or>
         (\<exists>k<MAXJOBS. \<not> live (jobs sh ! k) \<and> (\<forall>m. k < m \<longrightarrow> m < MAXJOBS \<longrightarrow> live (jobs sh ! m)) \<and>
            addjob p s sh = (if next_jid sh = INT_MAX then Fault Signed_overflow
                             else Ret (next_jid sh + 1, alloc k p s sh)))"
proof (cases "addjob_loop (jobs sh) p 0 Unset")
  case (Found k)
  with assms show ?thesis by (simp add: addjob_loop_Found)
next
  case (Not_found f')
  from addjob_loop_Not_found [OF Not_found] show ?thesis
  proof
    assume "f' = Unset \<and> (\<forall>m. 0 \<le> m \<longrightarrow> m < MAXJOBS \<longrightarrow> live (jobs sh ! m))"
    with Not_found show ?thesis by (simp add: addjob_def)
  next
    assume "\<exists>k. f' = Val (Slot k) \<and> 0 \<le> k \<and> k < MAXJOBS \<and> \<not> live (jobs sh ! k) \<and>
          (\<forall>m. k < m \<longrightarrow> m < MAXJOBS \<longrightarrow> live (jobs sh ! m))"
    then obtain k where k: "f' = Val (Slot k)" "k < MAXJOBS" "\<not> live (jobs sh ! k)"
      "\<forall>m. k < m \<longrightarrow> m < MAXJOBS \<longrightarrow> live (jobs sh ! m)" by blast
    from Not_found k(1) have "addjob p s sh = (if next_jid sh = INT_MAX then Fault Signed_overflow
                             else Ret (next_jid sh + 1, alloc k p s sh))"
      by (simp add: addjob_def alloc_def Let_def)
    with k show ?thesis by blast
  qed
qed

subsection \<open>The invariant of the table\<close>

lemma nth_set_st:
  "jobs (set_st k s sh) ! m =
     (if m = k \<and> k < length (jobs sh) then (jobs sh ! k)\<lparr>st := s\<rparr> else jobs sh ! m)"
  by (cases "k < length (jobs sh)") (auto simp: set_st_def nth_list_update list_update_beyond)

lemma nth_alloc:
  "jobs (alloc k p s sh) ! m =
     (if m = k \<and> k < length (jobs sh) then \<lparr>pid = p, jid = next_jid sh + 1, st = s\<rparr>
      else jobs sh ! m)"
  by (cases "k < length (jobs sh)") (auto simp: alloc_def nth_list_update list_update_beyond)

lemma length_set_st: "length (jobs (set_st k s sh)) = length (jobs sh)"
  by (simp add: set_st_def)

lemma length_alloc: "length (jobs (alloc k p s sh)) = length (jobs sh)"
  by (simp add: alloc_def)

lemma tracked_once_init: "tracked_once init_shell"
  by (simp add: tracked_once_def init_shell_def zero_job_def)

lemma tracked_once_set_st:
  assumes inv: "tracked_once sh" and k: "setjobstat_loop (jobs sh) p 0 = Some k"
  shows "tracked_once (set_st k s sh)"
proof -
  from setjobstat_loop_Some [OF k]
  have kk: "k < MAXJOBS" "pid (jobs sh ! k) = p" "\<forall>m<k. pid (jobs sh ! m) \<noteq> p" by auto
  from inv have len: "length (jobs sh) = MAXJOBS" by (simp add: tracked_once_def)
  have "st (jobs (set_st k s sh) ! j) = UNINIT"
    if "i < j" "j < MAXJOBS" "pid (jobs (set_st k s sh) ! i) = pid (jobs (set_st k s sh) ! j)" for i j
  proof -
    from that have eq: "pid (jobs sh ! i) = pid (jobs sh ! j)"
      by (simp add: nth_set_st split: if_splits)
    with kk that have "j \<noteq> k" by auto
    moreover from inv that eq have "st (jobs sh ! j) = UNINIT"
      by (simp add: tracked_once_def)
    ultimately show ?thesis by (simp add: nth_set_st)
  qed
  with len show ?thesis by (simp add: tracked_once_def length_set_st)
qed

lemma tracked_once_alloc:
  assumes inv: "tracked_once sh" and none: "setjobstat_loop (jobs sh) p 0 = None"
    and k: "k < MAXJOBS"
  shows "tracked_once (alloc k p s sh)"
proof -
  from inv have len: "length (jobs sh) = MAXJOBS" by (simp add: tracked_once_def)
  have fresh: "pid (jobs sh ! m) \<noteq> p" if "m < MAXJOBS" for m
    using setjobstat_loop_None [OF none, of m] that by simp
  have "st (jobs (alloc k p s sh) ! j) = UNINIT"
    if "i < j" "j < MAXJOBS" "pid (jobs (alloc k p s sh) ! i) = pid (jobs (alloc k p s sh) ! j)" for i j
  proof -
    from that have i: "i < MAXJOBS" by simp
    from that len k fresh [OF i] fresh [OF that(2)] have ne: "i \<noteq> k" "j \<noteq> k"
      by (auto simp: nth_alloc split: if_splits)
    with that have "pid (jobs sh ! i) = pid (jobs sh ! j)"
      by (simp add: nth_alloc)
    with inv that have "st (jobs sh ! j) = UNINIT" by (simp add: tracked_once_def)
    with ne show ?thesis by (simp add: nth_alloc)
  qed
  with len show ?thesis by (simp add: tracked_once_def length_alloc)
qed

lemma tracked_once_setjobstat:
  "tracked_once sh \<Longrightarrow> tracked_once (snd (setjobstat p s sh))"
  by (cases "setjobstat_loop (jobs sh) p 0")
     (simp_all add: setjobstat_None setjobstat_Some tracked_once_set_st)

lemma tracked_once_addjob:
  assumes inv: "tracked_once sh" and r: "addjob p s sh = Ret (j, sh')"
  shows "tracked_once sh'"
proof (cases "setjobstat_loop (jobs sh) p 0")
  case (Some k)
  with r have "sh' = set_st k s sh" by (simp add: addjob_Found)
  with inv Some show ?thesis by (simp add: tracked_once_set_st)
next
  case None
  from addjob_None [OF None, of s] r
  obtain k where "k < MAXJOBS" "sh' = alloc k p s sh"
    by (auto split: if_splits)
  with inv None show ?thesis by (simp add: tracked_once_alloc)
qed

lemma tracked_once_run:
  "tracked_once sh \<Longrightarrow> run sh cs = Ret sh' \<Longrightarrow> tracked_once sh'"
proof (induction cs arbitrary: sh)
  case Nil
  then show ?case by simp
next
  case (Cons c cs)
  show ?case
  proof (cases c)
    case (Addjob p s)
    with Cons.prems obtain j sh1 where a: "addjob p s sh = Ret (j, sh1)" "run sh1 cs = Ret sh'"
      by (cases "addjob p s sh") auto
    from tracked_once_addjob [OF Cons.prems(1) a(1)] a(2) Cons.IH show ?thesis by blast
  next
    case (Setjobstat p s)
    with Cons.prems have "run (snd (setjobstat p s sh)) cs = Ret sh'" by simp
    with tracked_once_setjobstat [OF Cons.prems(1)] Cons.IH show ?thesis by blast
  qed
qed

lemma one_live_slot_index:
  assumes "run init_shell cs = Ret sh"
    and "i < MAXJOBS" "j < MAXJOBS"
    and "pid (jobs sh ! i) = pid (jobs sh ! j)"
    and "live (jobs sh ! i)" "live (jobs sh ! j)"
  shows "i = j"
proof (rule ccontr)
  assume ne: "i \<noteq> j"
  from tracked_once_run [OF tracked_once_init assms(1)]
  have inv: "\<forall>i j. i < j \<longrightarrow> j < MAXJOBS \<longrightarrow> pid (jobs sh ! i) = pid (jobs sh ! j) \<longrightarrow>
         st (jobs sh ! j) = UNINIT"
    by (simp add: tracked_once_def)
  from ne have "i < j \<or> j < i" by arith
  then show False
  proof
    assume "i < j"
    with inv assms have "st (jobs sh ! j) = UNINIT" by blast
    with assms show False by (simp add: live_def)
  next
    assume "j < i"
    with inv assms have "st (jobs sh ! i) = UNINIT" by metis
    with assms show False by (simp add: live_def)
  qed
qed

subsection \<open>The jids issued by a run\<close>

lemma findjob_NULL: "findjob p sh = NULL \<longleftrightarrow> setjobstat_loop (jobs sh) p 0 = None"
  by (simp add: findjob_def split: option.splits)

lemma next_jid_setjobstat: "next_jid (snd (setjobstat p s sh)) = next_jid sh"
  by (simp add: setjobstat_def split: option.splits)

lemma addjob_Ret_next_jid:
  assumes "addjob p s sh = Ret (j, sh')"
  shows "if findjob p sh = NULL then j = next_jid sh + 1 \<and> next_jid sh' = next_jid sh + 1
         else next_jid sh' = next_jid sh"
proof (cases "setjobstat_loop (jobs sh) p 0")
  case (Some k)
  with assms show ?thesis by (auto simp: addjob_Found findjob_NULL set_st_def)
next
  case None
  from addjob_None [OF None, of s] assms None show ?thesis
    by (auto simp: findjob_NULL alloc_def split: if_splits)
qed

lemma issued_upto:
  "issued sh cs = [next_jid sh + 1 .. next_jid sh + int (length (issued sh cs))]"
proof (induction cs arbitrary: sh)
  case Nil
  show ?case by simp
next
  case (Cons c cs)
  show ?case
  proof (cases c)
    case (Setjobstat p s)
    with Cons.IH [of "snd (setjobstat p s sh)"] show ?thesis
      by (simp add: next_jid_setjobstat)
  next
    case (Addjob p s)
    show ?thesis
    proof (cases "addjob p s sh")
      case (Ret r)
      obtain j sh' where r: "r = (j, sh')" by (cases r)
      note ih = Cons.IH [of sh']
      show ?thesis
      proof (cases "findjob p sh = NULL")
        case True
        with addjob_Ret_next_jid [of p s sh j sh'] Ret r
        have n: "j = next_jid sh + 1" "next_jid sh' = next_jid sh + 1" by auto
        define L where "L = length (issued sh' cs)"
        have step: "issued sh (c # cs) = j # issued sh' cs"
          using Addjob Ret r True by simp
        have tl: "issued sh' cs = [j + 1 .. j + int L]"
          using ih n by (simp add: L_def)
        have "[j .. j + int L] = j # [j + 1 .. j + int L]"
          by (simp add: upto_rec1)
        with step tl have "issued sh (c # cs) = [j .. j + int L]" by simp
        moreover have "length (issued sh (c # cs)) = Suc L"
          using step by (simp add: L_def)
        moreover have "next_jid sh + int (Suc L) = j + int L"
          using n by simp
        ultimately show ?thesis using n by (simp add: add.assoc)
      next
        case False
        with addjob_Ret_next_jid [of p s sh j sh'] Ret r
        have "next_jid sh' = next_jid sh" by auto
        with ih Addjob Ret r False show ?thesis by simp
      qed
    qed (simp_all add: Addjob)
  qed
qed

subsection \<open>The scenarios are reachable from the empty table\<close>

lemma stale_shell_reachable:
  "run init_shell [Addjob 5 RUNNING, Setjobstat 5 TERMINATED] = Ret stale_shell"
  by code_simp

lemma full_shell_reachable: "run init_shell full_calls = Ret full_shell"
  by code_simp

lemma count_le_1:
  "(\<forall>i j. i < length xs \<longrightarrow> j < length xs \<longrightarrow> P (xs ! i) \<longrightarrow> P (xs ! j) \<longrightarrow> i = j) \<Longrightarrow>
   length (filter P xs) \<le> 1"
proof (induction xs)
  case Nil
  show ?case by simp
next
  case (Cons x xs)
  have tl: "\<forall>i j. i < length xs \<longrightarrow> j < length xs \<longrightarrow> P (xs ! i) \<longrightarrow> P (xs ! j) \<longrightarrow> i = j"
  proof (intro allI impI)
    fix i j assume "i < length xs" "j < length xs" "P (xs ! i)" "P (xs ! j)"
    with Cons.prems [rule_format, of "Suc i" "Suc j"] show "i = j" by simp
  qed
  show ?case
  proof (cases "P x")
    case False
    with Cons.IH [OF tl] show ?thesis by simp
  next
    case True
    have "\<not> P y" if "y \<in> set xs" for y
    proof
      assume "P y"
      from that obtain j where "j < length xs" "xs ! j = y" by (auto simp: in_set_conv_nth)
      with Cons.prems [rule_format, of 0 "Suc j"] True \<open>P y\<close> show False by simp
    qed
    then have "filter P xs = []" by (simp add: filter_empty_conv)
    with True show ?thesis by simp
  qed
qed

lemma run_append:
  "run sh (cs @ ds) = and_then (run sh cs) (\<lambda>sh'. run sh' ds)"
proof (induction cs arbitrary: sh)
  case Nil
  show ?case by simp
next
  case (Cons c cs)
  show ?case
  proof (cases c)
    case (Addjob p s)
    then show ?thesis using Cons.IH
      by (cases "addjob p s sh") (auto split: prod.splits)
  next
    case (Setjobstat p s)
    then show ?thesis using Cons.IH by simp
  qed
qed

lemma two_jobs_shell_reachable: "run init_shell two_jobs_calls = Ret two_jobs_shell"
  by code_simp

section \<open>Properties of the shell\<close>

subsection \<open>Small facts about the table\<close>

lemma fg_pid_setjobstat: "fg_pid (snd (setjobstat p s sh)) = fg_pid sh"
  by (simp add: setjobstat_def split: option.splits)

lemma trace_setjobstat: "trace (snd (setjobstat p s sh)) = trace sh"
  by (simp add: setjobstat_def split: option.splits)

lemma setjobstat_loop_None_intro:
  assumes "\<forall>m<MAXJOBS. pid (js ! m) \<noteq> p"
  shows "setjobstat_loop js p 0 = None"
proof (cases "setjobstat_loop js p 0")
  case (Some k)
  from setjobstat_loop_Some [OF Some] assms show ?thesis by auto
qed simp

lemma filter_update_count:
  assumes "k < length xs" and "\<not> P (xs ! k)" and "P y"
  shows "length (filter P (xs[k := y])) = Suc (length (filter P xs))"
proof -
  from assms(1) have a: "xs = take k xs @ xs ! k # drop (Suc k) xs"
    by (rule id_take_nth_drop)
  from assms(1) have b: "xs[k := y] = take k xs @ y # drop (Suc k) xs"
    by (rule upd_conv_take_nth_drop)
  have "length (filter P xs) = length (filter P (take k xs @ xs ! k # drop (Suc k) xs))"
    using a by simp
  with assms(2,3) show ?thesis by (simp add: b)
qed

lemma job_overwrite: "(j :: job)\<lparr>jid := a, pid := b, st := c\<rparr> = \<lparr>pid = b, jid = a, st = c\<rparr>"
  by (cases j) simp

subsection \<open>The loop of the reaper\<close>

lemma reported_all: "reported {WNOHANG, WUNTRACED, WCONTINUED} e"
  by (simp add: reported_def split: wstatus.splits)

lemma waitpid_any_Cons:
  "pending k = e # es \<Longrightarrow>
   waitpid_any {WNOHANG, WUNTRACED, WCONTINUED} k = (Reaped (fst e) (snd e), k\<lparr>pending := es\<rparr>)"
  using reported_all [of e] by (simp add: waitpid_any_def)

lemma waitpid_any_Nil:
  "pending k = [] \<Longrightarrow>
   waitpid_any {WNOHANG, WUNTRACED, WCONTINUED} k =
     (if child_left k then No_change else Wait_error ECHILD, k)"
  by (simp add: waitpid_any_def)

lemma reap_loop_drains:
  "pending k = es \<Longrightarrow> list_all (\<lambda>e. 0 < fst e) es \<Longrightarrow>
   reap_loop k sh =
     (if child_left k then No_change else Wait_error ECHILD, k\<lparr>pending := []\<rparr>,
      foldl (\<lambda>s e. reap_one (fst e) (snd e) s) sh es)"
proof (induction es arbitrary: k sh)
  case Nil
  then show ?case
    by (simp add: reap_loop.simps [of k sh] waitpid_any_Nil)
next
  case (Cons e es)
  from Cons.prems have pos: "0 < fst e" and rest: "list_all (\<lambda>e. 0 < fst e) es" by simp_all
  have "reap_loop k sh = reap_loop (k\<lparr>pending := es\<rparr>) (reap_one (fst e) (snd e) sh)"
    using pos by (simp add: reap_loop.simps [of k sh] waitpid_any_Cons [OF Cons.prems(1)])
  also have "\<dots> = (if child_left k then No_change else Wait_error ECHILD, k\<lparr>pending := []\<rparr>,
      foldl (\<lambda>s e. reap_one (fst e) (snd e) s) (reap_one (fst e) (snd e) sh) es)"
    using Cons.IH [of "k\<lparr>pending := es\<rparr>" "reap_one (fst e) (snd e) sh"] rest by simp
  finally show ?case by simp
qed

lemma jobs_setjobstat_cong:
  "jobs a = jobs b \<Longrightarrow> jobs (snd (setjobstat p s a)) = jobs (snd (setjobstat p s b))"
  by (simp add: setjobstat_def split: option.splits)

lemma jobs_reap_one:
  "jobs a = jobs b \<Longrightarrow>
   jobs (reap_one p w a) = jobs (snd (setjobstat p (reaped_status w) b))"
  unfolding reap_one_def by (rule jobs_setjobstat_cong) (simp add: log_def)

lemma jobs_reap_all:
  "jobs a = jobs b \<Longrightarrow>
   jobs (foldl (\<lambda>s e. reap_one (fst e) (snd e) s) a es) = jobs (set_status_all es b)"
proof (induction es arbitrary: a b)
  case Nil
  then show ?case by (simp add: set_status_all_def)
next
  case (Cons e es)
  from Cons.IH [OF jobs_reap_one [OF Cons.prems, of "fst e" "snd e"]]
  show ?case by (simp add: set_status_all_def)
qed

lemma map_update_same: "f y = f (xs ! k) \<Longrightarrow> map f (xs[k := y]) = map f xs"
  by (cases "k < length xs") (simp_all add: map_update list_update_beyond list_update_same_conv)

lemma setjobstat_frame:
  "next_jid (snd (setjobstat p s sh)) = next_jid sh \<and>
   fg_pid (snd (setjobstat p s sh)) = fg_pid sh \<and>
   map pid (jobs (snd (setjobstat p s sh))) = map pid (jobs sh) \<and>
   map jid (jobs (snd (setjobstat p s sh))) = map jid (jobs sh)"
  by (simp add: setjobstat_def map_update_same split: option.splits)

lemma set_status_all_frame:
  "next_jid (set_status_all es sh) = next_jid sh \<and>
   fg_pid (set_status_all es sh) = fg_pid sh \<and>
   map pid (jobs (set_status_all es sh)) = map pid (jobs sh) \<and>
   map jid (jobs (set_status_all es sh)) = map jid (jobs sh)"
proof (induction es arbitrary: sh)
  case Nil
  show ?case by (simp add: set_status_all_def)
next
  case (Cons e es)
  from Cons.IH [of "snd (setjobstat (fst e) (reaped_status (snd e)) sh)"]
    setjobstat_frame [of "fst e" "reaped_status (snd e)" sh]
  show ?case by (simp add: set_status_all_def)
qed

lemma reap_one_next_jid: "next_jid (reap_one p w sh) = next_jid sh"
  by (simp add: reap_one_def setjobstat_def log_def split: option.splits)

lemma reap_all_next_jid:
  "next_jid (foldl (\<lambda>s e. reap_one (fst e) (snd e) s) sh es) = next_jid sh"
  by (induction es arbitrary: sh) (simp_all add: reap_one_next_jid)

subsection \<open>The loop of \<^verbatim>\<open>parseline\<close> yields the tokens of the line\<close>

lemma split_spaces_not_Nil: "split_spaces s \<noteq> []"
  by (induction s) (auto split: list.splits)

lemma split_spaces_hd_tl:
  "split_spaces s =
     takeWhile (\<lambda>c. c \<noteq> CHR '' '') s #
     (if CHR '' '' \<in> set s then split_spaces (tl (dropWhile (\<lambda>c. c \<noteq> CHR '' '') s)) else [])"
proof (induction s)
  case Nil
  show ?case by simp
next
  case (Cons c cs)
  show ?case
  proof (cases "c = CHR '' ''")
    case True
    then show ?thesis by simp
  next
    case False
    with Cons.IH show ?thesis by (simp split: list.splits)
  qed
qed

lemma tokens_Nil: "tokens [] = []"
  by (simp add: tokens_def)

lemma tokens_space: "tokens (CHR '' '' # cs) = tokens cs"
  by (simp add: tokens_def)

lemma tokens_word:
  assumes "c \<noteq> CHR '' ''"
  shows "tokens (c # cs) =
     takeWhile (\<lambda>c. c \<noteq> CHR '' '') (c # cs) #
     (if CHR '' '' \<in> set cs then tokens (tl (dropWhile (\<lambda>c. c \<noteq> CHR '' '') cs)) else [])"
proof -
  have "split_spaces (c # cs) =
     takeWhile (\<lambda>c. c \<noteq> CHR '' '') (c # cs) #
     (if CHR '' '' \<in> set (c # cs)
      then split_spaces (tl (dropWhile (\<lambda>c. c \<noteq> CHR '' '') (c # cs))) else [])"
    by (rule split_spaces_hd_tl)
  with assms show ?thesis by (simp add: tokens_def)
qed

lemma takeWhile_append_stop: "\<not> P y \<Longrightarrow> takeWhile P (xs @ [y]) = takeWhile P xs"
  by (induction xs) auto

lemma dropWhile_append_stop: "\<not> P y \<Longrightarrow> dropWhile P (xs @ [y]) = dropWhile P xs @ [y]"
  by (induction xs) auto

lemma dropWhile_no_stop: "y \<notin> set xs \<Longrightarrow> dropWhile (\<lambda>c. c \<noteq> y) xs = []"
  by (induction xs) auto

lemma dropWhile_stop: "y \<in> set xs \<Longrightarrow> dropWhile (\<lambda>c. c \<noteq> y) xs \<noteq> []"
  by (induction xs) auto

lemma split_loop_Nil: "split_loop [] = []"
  by (simp add: split_loop.simps [of "[]"])

lemma split_loop_tokens: "split_loop (skip_spaces (s @ '' '')) = tokens s"
proof (induction "length s" arbitrary: s rule: less_induct)
  case less
  show ?case
  proof (cases s)
    case Nil
    then show ?thesis by (simp add: skip_spaces_def split_loop_Nil tokens_Nil)
  next
    case (Cons c cs)
    show ?thesis
    proof (cases "c = CHR '' ''")
      case True
      with Cons have "skip_spaces (s @ '' '') = skip_spaces (cs @ '' '')"
        by (simp add: skip_spaces_def)
      with less [of cs] Cons True show ?thesis by (simp add: tokens_space)
    next
      case False
      let ?b = "s @ '' ''"
      from Cons False have b: "skip_spaces ?b = ?b" by (simp add: skip_spaces_def)
      have tw: "takeWhile (\<lambda>c. c \<noteq> CHR '' '') ?b = takeWhile (\<lambda>c. c \<noteq> CHR '' '') s"
        by (rule takeWhile_append_stop) simp
      have dw: "dropWhile (\<lambda>c. c \<noteq> CHR '' '') ?b = dropWhile (\<lambda>c. c \<noteq> CHR '' '') s @ '' ''"
        by (rule dropWhile_append_stop) simp
      have "CHR '' '' \<in> set ?b" by simp
      then have unfold: "split_loop ?b =
          takeWhile (\<lambda>c. c \<noteq> CHR '' '') ?b #
          split_loop (skip_spaces (tl (dropWhile (\<lambda>c. c \<noteq> CHR '' '') ?b)))"
        by (subst split_loop.simps) (simp only: if_True)
      from Cons False have tok: "tokens s =
          takeWhile (\<lambda>c. c \<noteq> CHR '' '') s #
          (if CHR '' '' \<in> set cs then tokens (tl (dropWhile (\<lambda>c. c \<noteq> CHR '' '') cs)) else [])"
        using tokens_word [OF False, of cs] by simp
      from Cons False have dcs: "dropWhile (\<lambda>c. c \<noteq> CHR '' '') s = dropWhile (\<lambda>c. c \<noteq> CHR '' '') cs"
        by simp
      show ?thesis
      proof (cases "CHR '' '' \<in> set cs")
        case True
        let ?d = "dropWhile (\<lambda>c. c \<noteq> CHR '' '') cs"
        from True have dne: "?d \<noteq> []" by (rule dropWhile_stop)
        then have tl: "tl (?d @ '' '') = tl ?d @ '' ''" by (cases ?d) simp_all
        have "length ?d \<le> length cs" by (rule length_dropWhile_le)
        with dne Cons have "length (tl ?d) < length s" by (cases ?d) simp_all
        from less [OF this] have ih: "split_loop (skip_spaces (tl ?d @ '' '')) = tokens (tl ?d)" .
        have "split_loop (skip_spaces ?b) = takeWhile (\<lambda>c. c \<noteq> CHR '' '') s # tokens (tl ?d)"
          by (simp only: b unfold tw dw dcs tl ih)
        with tok True show ?thesis by (simp only: if_True)
      next
        case nosp: False
        then have "dropWhile (\<lambda>c. c \<noteq> CHR '' '') cs = []" by (rule dropWhile_no_stop)
        then have "skip_spaces (tl (dropWhile (\<lambda>c. c \<noteq> CHR '' '') ?b)) = []"
          by (simp only: dw dcs) (simp add: skip_spaces_def)
        then have "split_loop (skip_spaces ?b) = takeWhile (\<lambda>c. c \<noteq> CHR '' '') s # []"
          by (simp only: b unfold tw split_loop_Nil)
        with tok nosp show ?thesis by (simp only: if_False)
      qed
    qed
  qed
qed

subsection \<open>What \<^verbatim>\<open>parse_pid\<close> resolves\<close>

lemma parse_pid_pid_loop_absent:
  "(\<forall>m. i \<le> m \<longrightarrow> m < MAXJOBS \<longrightarrow> pid (js ! m) \<noteq> p) \<Longrightarrow> parse_pid_pid_loop js p i = - 1"
proof (induction js p i rule: parse_pid_pid_loop.induct)
  case (1 js p i)
  show ?case
  proof (cases "i < MAXJOBS")
    case True
    with "1.prems" have ne: "pid (js ! i) \<noteq> p" by simp
    from "1.prems" have "\<forall>m. Suc i \<le> m \<longrightarrow> m < MAXJOBS \<longrightarrow> pid (js ! m) \<noteq> p" by simp
    with "1.IH" True ne have "parse_pid_pid_loop js p (Suc i) = - 1" by simp
    with True ne show ?thesis by (auto simp: parse_pid_pid_loop.simps [of js p i])
  next
    case False
    then show ?thesis by (auto simp: parse_pid_pid_loop.simps [of js p i])
  qed
qed

lemma parse_pid_pid_loop_present:
  "setjobstat_loop js p i = Some k \<Longrightarrow> parse_pid_pid_loop js p i = p"
proof (induction js p i rule: parse_pid_pid_loop.induct)
  case (1 js p i)
  from "1.prems" have lt: "i < MAXJOBS"
    by (simp add: setjobstat_loop.simps [of js p i] split: if_splits)
  show ?case
  proof (cases "pid (js ! i) = p")
    case True
    with lt show ?thesis by (auto simp: parse_pid_pid_loop.simps [of js p i])
  next
    case False
    with "1.prems" lt have "setjobstat_loop js p (Suc i) = Some k"
      by (simp add: setjobstat_loop.simps [of js p i])
    with "1.IH" lt False have "parse_pid_pid_loop js p (Suc i) = p" by simp
    with lt False show ?thesis by (auto simp: parse_pid_pid_loop.simps [of js p i])
  qed
qed

text \<open>A bare pid is resolved whenever a slot stores it, whatever the status of the slot.\<close>

lemma parse_pid_ignores_status:
  assumes "first_char s \<noteq> CHR ''%''" and "findjob (parse_int s) sh \<noteq> NULL"
  shows "parse_pid s sh = parse_int s"
proof -
  from assms(2) obtain k where "setjobstat_loop (jobs sh) (parse_int s) 0 = Some k"
    by (auto simp: findjob_def split: option.splits)
  then have "parse_pid_pid_loop (jobs sh) (parse_int s) 0 = parse_int s"
    by (rule parse_pid_pid_loop_present)
  with assms(1) show ?thesis by (simp add: parse_pid_def)
qed

text \<open>A token that \<^verbatim>\<open>parse_int\<close> rejects is not resolved (no slot holds the pid -1).\<close>

lemma parse_pid_malformed:
  "first_char s = CHR ''%'' \<Longrightarrow> parse_int (tl s) = - 1 \<Longrightarrow> parse_pid s sh = - 1"
  "first_char s \<noteq> CHR ''%'' \<Longrightarrow> parse_int s = - 1 \<Longrightarrow> findjob (- 1) sh = NULL \<Longrightarrow>
     parse_pid s sh = - 1"
proof -
  show "first_char s = CHR ''%'' \<Longrightarrow> parse_int (tl s) = - 1 \<Longrightarrow> parse_pid s sh = - 1"
    by (simp add: parse_pid_def)
next
  assume a: "first_char s \<noteq> CHR ''%''" "parse_int s = - 1" "findjob (- 1) sh = NULL"
  from a(3) have "setjobstat_loop (jobs sh) (- 1) 0 = None" by (simp add: findjob_NULL)
  then have "\<forall>m. 0 \<le> m \<longrightarrow> m < MAXJOBS \<longrightarrow> pid (jobs sh ! m) \<noteq> - 1"
    using setjobstat_loop_None by blast
  then have "parse_pid_pid_loop (jobs sh) (- 1) 0 = - 1" by (rule parse_pid_pid_loop_absent)
  with a show "parse_pid s sh = - 1" by (simp add: parse_pid_def)
qed

lemma parse_int_examples:
  "parse_int ''12'' = 12 \<and> parse_int ''12abc'' = - 1 \<and> parse_int ''abc'' = - 1 \<and>
   parse_int ''1 2'' = - 1 \<and> parse_int ''-7'' = - 7 \<and> parse_int '''' = 0"
  by code_simp

subsection \<open>\<^verbatim>\<open>addjob\<close> on a pid without a slot\<close>

text \<open>The two ways in which \<^verbatim>\<open>addjob\<close> treats a pid that no slot holds.\<close>

lemma addjob_allocates_free_slot:
  assumes "findjob p sh = NULL" and "f < MAXJOBS" and "\<not> live (jobs sh ! f)"
    and "next_jid sh \<noteq> INT_MAX"
  shows "\<exists>k<MAXJOBS. \<not> live (jobs sh ! k) \<and> (\<forall>m. k < m \<longrightarrow> m < MAXJOBS \<longrightarrow> live (jobs sh ! m)) \<and>
           addjob p s sh =
             Ret (next_jid sh + 1,
                  sh\<lparr>jobs := (jobs sh)[k := \<lparr>pid = p, jid = next_jid sh + 1, st = s\<rparr>],
                     next_jid := next_jid sh + 1\<rparr>)"
proof -
  from assms(1) have none: "setjobstat_loop (jobs sh) p 0 = None" by (simp add: findjob_NULL)
  from addjob_None [OF none, of s] assms(2,3,4) show ?thesis
    by (auto simp: alloc_def job_overwrite)
qed

lemma addjob_table_full:
  assumes "findjob p sh = NULL" and "\<forall>m<MAXJOBS. live (jobs sh ! m)"
  shows "addjob p s sh = Fault Uninit_read"
proof -
  from assms(1) have none: "setjobstat_loop (jobs sh) p 0 = None" by (simp add: findjob_NULL)
  from addjob_None [OF none, of s] assms(2) show ?thesis by auto
qed

text \<open>
  No run of the loop leaves \<^verbatim>\<open>NULL\<close> in \<^verbatim>\<open>free_job\<close>: the branch that returns -1 is
  never taken by a defined execution.
\<close>

lemma addjob_loop_never_NULL: "addjob_loop js p i Unset \<noteq> Not_found (Val NULL)"
proof
  assume "addjob_loop js p i Unset = Not_found (Val NULL)"
  from addjob_loop_Not_found [OF this] show False by auto
qed

subsection \<open>The earlier draft\<close>

text \<open>The earlier draft: \<^verbatim>\<open>run_fg\<close> never resets the foreground designation.\<close>

lemma run_fg_826_fg_pid: "run_fg_826 (Some status) p sh = Ret sh' \<Longrightarrow> fg_pid sh' = p"
  by (auto simp: run_fg_826_def log_def Let_def split: if_splits)

lemma reap_child_826_table:
  "jobs (reap_child_826 sh) = jobs sh \<and> next_jid (reap_child_826 sh) = next_jid sh"
  by (simp add: reap_child_826_def log_def)

section \<open>The claims about the job table\<close>

text \<open>
  Claim C10: when some slot already stores the pid, whatever its status (also
  \<open>TERMINATED\<close>), \<^verbatim>\<open>addjob\<close> sets the status of the first slot storing it and returns
  that slot's jid; \<open>next_jid\<close> and every other field stay as they were, so no fresh
  jid is allocated.
\<close>

theorem addjob_stored_pid_keeps_jid:
  assumes "length (jobs sh) = MAXJOBS" and "k < MAXJOBS" and "pid (jobs sh ! k) = p"
  shows "\<exists>i\<le>k. pid (jobs sh ! i) = p \<and> (\<forall>m<i. pid (jobs sh ! m) \<noteq> p) \<and>
           addjob p s sh =
             Ret (jid (jobs sh ! i), sh\<lparr>jobs := (jobs sh)[i := (jobs sh ! i)\<lparr>st := s\<rparr>]\<rparr>)"
proof (cases "setjobstat_loop (jobs sh) p 0")
  case None
  from setjobstat_loop_None [OF None, of k] assms show ?thesis by simp
next
  case (Some i)
  from setjobstat_loop_Some [OF Some]
  have i: "pid (jobs sh ! i) = p" "\<forall>m<i. pid (jobs sh ! m) \<noteq> p" by auto
  have "i \<le> k"
  proof (rule ccontr)
    assume "\<not> i \<le> k"
    with i(2) assms(3) show False by auto
  qed
  with i addjob_Found [OF Some, of s] show ?thesis
    by (auto simp: set_st_def)
qed

theorem addjob_stored_pid_keeps_jid_witness:
  "length (jobs stale_shell) = MAXJOBS \<and> (99::nat) < MAXJOBS \<and>
   jobs stale_shell ! 99 = \<lparr>pid = 5, jid = 1, st = TERMINATED\<rparr> \<and>
   addjob 5 RUNNING stale_shell =
     Ret (1, stale_shell\<lparr>jobs := (jobs stale_shell)[99 := \<lparr>pid = 5, jid = 1, st = RUNNING\<rparr>]\<rparr>)"
proof -
  have a: "length (jobs stale_shell) = MAXJOBS" "(99::nat) < MAXJOBS"
    "jobs stale_shell ! 99 = \<lparr>pid = 5, jid = 1, st = TERMINATED\<rparr>"
    by code_simp+
  then have p: "pid (jobs stale_shell ! 99) = 5" by simp
  have first: "\<forall>m<99. pid (jobs stale_shell ! m) \<noteq> 5"
    by (simp add: stale_shell_def init_shell_def MAXJOBS_def zero_job_def nth_list_update)
  from addjob_stored_pid_keeps_jid [OF a(1) a(2) p, of RUNNING]
  obtain i where i: "i \<le> 99" "pid (jobs stale_shell ! i) = 5"
    "addjob 5 RUNNING stale_shell =
       Ret (jid (jobs stale_shell ! i),
            stale_shell\<lparr>jobs := (jobs stale_shell)[i := (jobs stale_shell ! i)\<lparr>st := RUNNING\<rparr>]\<rparr>)"
    by blast
  from i(1,2) first have "i = 99" by (cases "i = 99") auto
  with i(3) a show ?thesis by simp
qed

text \<open>
  Claim C2 (\<^verbatim>\<open>addjob\<close> with a pid not in the table allocates a free slot; it returns -1
  only when no slot is free, and its free-slot selection never reads an undefined value).
  The first part holds (\<open>addjob_allocates_free_slot\<close> above: the last slot that is
  not live gets the pid, the status and the jid \<open>next_jid + 1\<close>). The rest fails on
  the code: when a hundred children are tracked and none has finished, the loop never
  assigns \<^verbatim>\<open>free_job\<close>, and the test \<^verbatim>\<open>free_job != NULL\<close> reads the uninitialised
  local (\<open>addjob_table_full\<close> for any table without a free slot). The comment above
  the function promises -1 there.
\<close>

theorem addjob_full_table_reads_unset:
  "run init_shell (full_calls @ [Addjob 101 RUNNING]) = Fault Uninit_read"
proof -
  have "addjob 101 RUNNING full_shell = Fault Uninit_read"
    by code_simp
  then show ?thesis
    by (simp add: run_append full_shell_reachable)
qed

text \<open>
  Claim C3: across any sequence of calls, the jids that \<^verbatim>\<open>addjob\<close> issues for newly
  allocated slots are strictly increasing and never reused, also when the slot of an
  earlier job is recycled. From any state, the jids issued by a run are exactly
  \<open>next_jid + 1, next_jid + 2, \<dots>\<close> in this order: each is larger than the counter at
  the start and than every jid issued before it. (The run ends where \<^verbatim>\<open>++next_jid\<close>
  would overflow.)
\<close>

theorem issued_jids_increase:
  "issued sh cs = [next_jid sh + 1 .. next_jid sh + int (length (issued sh cs))] \<and>
   sorted_wrt (<) (next_jid sh # issued sh cs) \<and> distinct (issued sh cs)"
proof -
  have "sorted_wrt (<) (next_jid sh # [next_jid sh + 1 .. next_jid sh + int (length (issued sh cs))])"
    by (simp add: strict_sorted_iff)
  with issued_upto [of sh cs] show ?thesis
    by (metis distinct_upto)
qed

theorem issued_jids_increase_witness:
  "issued init_shell recycle_calls = [1, 2] \<and>
   run init_shell recycle_calls =
     Ret (init_shell\<lparr>jobs := (jobs init_shell)[99 := \<lparr>pid = 6, jid = 2, st = RUNNING\<rparr>],
                     next_jid := 2\<rparr>)"
proof -
  have "length (issued init_shell recycle_calls) = 2" by code_simp
  with issued_jids_increase [of init_shell recycle_calls]
  have "issued init_shell recycle_calls = [0 + 1 .. 0 + 2]"
    by (simp add: init_shell_def)
  also have "\<dots> = [1, 2]" by code_simp
  finally have a: "issued init_shell recycle_calls = [1, 2]" .
  have "run init_shell recycle_calls =
     Ret (init_shell\<lparr>jobs := (jobs init_shell)[99 := \<lparr>pid = 6, jid = 2, st = RUNNING\<rparr>],
                     next_jid := 2\<rparr>)"
    by code_simp
  with a show ?thesis by simp
qed

text \<open>
  Claim C4: for all sequences of \<^verbatim>\<open>addjob\<close> and \<^verbatim>\<open>setjobstat\<close> calls starting from the
  empty table, at most one slot holds a given pid in a live status (neither \<open>UNINIT\<close>
  nor \<open>TERMINATED\<close>).
\<close>

theorem one_live_slot_per_pid:
  assumes "run init_shell cs = Ret sh"
  shows "length (filter (\<lambda>j. pid j = p \<and> live j) (jobs sh)) \<le> 1"
proof (rule count_le_1, intro allI impI)
  fix i j
  assume a: "i < length (jobs sh)" "j < length (jobs sh)"
    "pid (jobs sh ! i) = p \<and> live (jobs sh ! i)" "pid (jobs sh ! j) = p \<and> live (jobs sh ! j)"
  from tracked_once_run [OF tracked_once_init assms]
  have "length (jobs sh) = MAXJOBS" by (simp add: tracked_once_def)
  with a one_live_slot_index [OF assms, of i j] show "i = j" by simp
qed

theorem one_live_slot_per_pid_witness:
  "run init_shell two_jobs_calls = Ret two_jobs_shell \<and>
   filter (\<lambda>j. pid j = 5 \<and> live j) (jobs two_jobs_shell) = [\<lparr>pid = 5, jid = 1, st = RUNNING\<rparr>] \<and>
   length (filter (\<lambda>j. pid j = 5 \<and> live j) (jobs two_jobs_shell)) \<le> 1"
proof -
  have "filter (\<lambda>j. pid j = 5 \<and> live j) (jobs two_jobs_shell) = [\<lparr>pid = 5, jid = 1, st = RUNNING\<rparr>]"
    by code_simp
  with two_jobs_shell_reachable one_live_slot_per_pid [OF two_jobs_shell_reachable, of 5]
  show ?thesis by simp
qed

section \<open>The claims about parsing, the evaluator and the handlers\<close>

text \<open>
  Claim C1 (a token that points to an \<open>UNINIT\<close> or \<open>TERMINATED\<close> slot is rejected and
  no stale pid is returned) fails on the code. The guard of both loops of \<^verbatim>\<open>parse_pid\<close>
  is \<^verbatim>\<open>j->st == TERMINATED && j->st == UNINIT\<close>, which no status satisfies, so the
  status is never looked at. After \<^verbatim>\<open>addjob(5, RUNNING)\<close> and
  \<^verbatim>\<open>setjobstat(5, TERMINATED)\<close> the only slot with pid 5 or jid 1 is \<open>TERMINATED\<close>, and
  both \<^verbatim>\<open>5\<close> and \<^verbatim>\<open>%1\<close> resolve to the pid 5: \<^verbatim>\<open>fg 5\<close> signals the process instead
  of printing "No such process", and the shell exits when \<^verbatim>\<open>kill\<close> fails. The comments of
  \<^verbatim>\<open>parse_pid\<close> and of \<^verbatim>\<open>eval\<close> say that -1 is returned there.
\<close>

theorem parse_pid_returns_terminated_pid:
  "run init_shell [Addjob 5 RUNNING, Setjobstat 5 TERMINATED] = Ret stale_shell \<and>
   filter (\<lambda>j. pid j = 5 \<or> jid j = 1) (jobs stale_shell) = [\<lparr>pid = 5, jid = 1, st = TERMINATED\<rparr>] \<and>
   parse_pid ''5'' stale_shell = 5 \<and>
   parse_pid ''%1'' stale_shell = 5 \<and>
   eval os_gone ''fg 5\<newline>'' stale_shell =
     Exit (stale_shell\<lparr>trace := [Kill 5 SIGCONT, Unix_error ''Forward SIGCONT error'']\<rparr>)"
proof -
  have "filter (\<lambda>j. pid j = 5 \<or> jid j = 1) (jobs stale_shell) = [\<lparr>pid = 5, jid = 1, st = TERMINATED\<rparr>]"
    by code_simp
  moreover have "parse_pid ''5'' stale_shell = 5" by code_simp
  moreover have "parse_pid ''%1'' stale_shell = 5" by code_simp
  moreover have "eval os_gone ''fg 5\<newline>'' stale_shell =
     Exit (stale_shell\<lparr>trace := [Kill 5 SIGCONT, Unix_error ''Forward SIGCONT error'']\<rparr>)"
    by code_simp
  ultimately show ?thesis using stale_shell_reachable by simp
qed

text \<open>
  Claim C5: one invocation of \<^verbatim>\<open>reap_child\<close> collects every pending state change with
  a wait that does not block and that reports stops and continues; each change becomes
  \<open>TERMINATED\<close> (exit or fatal signal), \<open>STOPPED\<close> or \<open>RUNNING\<close> (continue) and
  reaches the table through \<^verbatim>\<open>setjobstat\<close> only. Whatever is pending (the kernel reports
  positive pids), the handler returns with nothing left pending; the table is the one
  that the \<^verbatim>\<open>setjobstat\<close> calls alone produce; no pid, no jid and not \<open>next_jid\<close> has
  changed, so no slot was allocated.
\<close>

theorem reap_child_drains:
  assumes "list_all (\<lambda>e. 0 < fst e) (pending k)"
  shows "\<exists>sh'. reap_child k sh = Ret (k\<lparr>pending := []\<rparr>, sh') \<and>
           jobs sh' = jobs (set_status_all (pending k) sh) \<and>
           next_jid sh' = next_jid sh \<and>
           map pid (jobs sh') = map pid (jobs sh) \<and>
           map jid (jobs sh') = map jid (jobs sh) \<and>
           reaped_status (WExited c) = TERMINATED \<and> reaped_status (WSignaled n) = TERMINATED \<and>
           reaped_status (WStopped n) = STOPPED \<and> reaped_status WContinued = RUNNING"
proof -
  let ?sh' = "foldl (\<lambda>s e. reap_one (fst e) (snd e) s) sh (pending k)"
  from reap_loop_drains [OF refl assms, of sh]
  have "reap_child k sh = Ret (k\<lparr>pending := []\<rparr>, ?sh')"
    by (simp add: reap_child_def)
  moreover have j: "jobs ?sh' = jobs (set_status_all (pending k) sh)"
    by (rule jobs_reap_all) simp
  moreover have "next_jid ?sh' = next_jid sh" by (rule reap_all_next_jid)
  moreover have "map pid (jobs ?sh') = map pid (jobs sh)" "map jid (jobs ?sh') = map jid (jobs sh)"
    using set_status_all_frame [of "pending k" sh] j by simp_all
  moreover have "reaped_status (WExited c) = TERMINATED" "reaped_status (WSignaled n) = TERMINATED"
    "reaped_status (WStopped n) = STOPPED" "reaped_status WContinued = RUNNING"
    by (simp_all add: reaped_status_def WIFEXITED_def WIFSIGNALED_def WIFSTOPPED_def)
  ultimately show ?thesis by blast
qed

theorem reap_child_drains_witness:
  "list_all (\<lambda>e. 0 < fst e) (pending three_changes) \<and>
   (\<exists>sh'. reap_child three_changes two_jobs_shell = Ret (three_changes\<lparr>pending := []\<rparr>, sh') \<and>
      jobs sh' = (jobs two_jobs_shell)[99 := \<lparr>pid = 5, jid = 1, st = TERMINATED\<rparr>,
                                       98 := \<lparr>pid = 7, jid = 2, st = STOPPED\<rparr>] \<and>
      next_jid sh' = 2)"
proof -
  have h: "list_all (\<lambda>e. 0 < fst e) (pending three_changes)" by code_simp
  have t: "jobs (set_status_all (pending three_changes) two_jobs_shell) =
      (jobs two_jobs_shell)[99 := \<lparr>pid = 5, jid = 1, st = TERMINATED\<rparr>,
                            98 := \<lparr>pid = 7, jid = 2, st = STOPPED\<rparr>]"
    by code_simp
  have n: "next_jid two_jobs_shell = 2" by code_simp
  from reap_child_drains [OF h, of two_jobs_shell] t n h show ?thesis by auto
qed

text \<open>
  Claim C6 (after \<^verbatim>\<open>run_fg\<close> returns the foreground designation is 0 in every outcome)
  fails on the code for a child that exits and for one killed by a signal: \<open>fg_pid\<close>
  is still the pid of the process that is gone. The next Ctrl+C is then forwarded to that
  pid, \<^verbatim>\<open>kill\<close> fails and \<^verbatim>\<open>unix_error\<close> ends the shell. The comment in \<^verbatim>\<open>run_fg\<close> asks
  for the reset in all three cases; the assignment stands only in the branch of a
  stopped child.
\<close>

theorem run_fg_leaves_fg_pid:
  "run_fg (Some (WExited c)) p sh = Ret (sh\<lparr>fg_pid := p\<rparr>) \<and>
   (\<exists>sh'. run_fg (Some (WSignaled n)) p sh = Ret sh' \<and> fg_pid sh' = p) \<and>
   forward_signal (- 1) SIGINT (sh\<lparr>fg_pid := 42\<rparr>) =
     Exit (log [Printf ''[ForwardSignalHandler] forwarding sig 2 to 42\<newline>'', Kill 42 SIGINT,
                Unix_error ''Forward SIGINT|SIGTSTP error''] (sh\<lparr>fg_pid := 42\<rparr>))"
proof -
  have a: "run_fg (Some (WExited c)) p sh = Ret (sh\<lparr>fg_pid := p\<rparr>)"
    by (simp add: run_fg_def WIFSIGNALED_def WIFSTOPPED_def)
  have b: "\<exists>sh'. run_fg (Some (WSignaled n)) p sh = Ret sh' \<and> fg_pid sh' = p"
    using fg_pid_setjobstat [of p TERMINATED "sh\<lparr>fg_pid := p\<rparr>"]
    by (auto simp: run_fg_def WIFSIGNALED_def log_def split: prod.splits)
  have "show_int 2 = ''2''" "show_int 42 = ''42''" by code_simp+
  then have c: "forward_signal (- 1) SIGINT (sh\<lparr>fg_pid := 42\<rparr>) =
     Exit (log [Printf ''[ForwardSignalHandler] forwarding sig 2 to 42\<newline>'', Kill 42 SIGINT,
                Unix_error ''Forward SIGINT|SIGTSTP error''] (sh\<lparr>fg_pid := 42\<rparr>))"
    by (simp add: forward_signal_def unix_error_def log_def SIGINT_def Let_def)
  from a b c show ?thesis by blast
qed

text \<open>
  Claim C7 says that a stop of the foreground process adds exactly one new table entry
  and that the notice bears a newly assigned job id. Not so for a job brought to the
  foreground with \<^verbatim>\<open>fg\<close>: pid 5 is job 1 of the table, \<^verbatim>\<open>addjob\<close> finds its slot, and
  after the stop the table has as many live entries as before, \<open>next_jid\<close> is
  unchanged and the notice bears the old id 1.
\<close>

theorem run_fg_stop_of_tracked_pid:
  "findjob 5 two_jobs_shell = Slot 99 \<and>
   jobs two_jobs_shell ! 99 = \<lparr>pid = 5, jid = 1, st = RUNNING\<rparr> \<and>
   run_fg (Some (WStopped 20)) 5 two_jobs_shell =
     Ret (two_jobs_shell\<lparr>jobs := (jobs two_jobs_shell)[99 := \<lparr>pid = 5, jid = 1, st = STOPPED\<rparr>],
            trace := [Psignal 20 ''Job [1] 5 stopped by signal'']\<rparr>) \<and>
   length (filter live ((jobs two_jobs_shell)[99 := \<lparr>pid = 5, jid = 1, st = STOPPED\<rparr>])) =
     length (filter live (jobs two_jobs_shell))"
  by code_simp

text \<open>
  Claim C7 as amended: when the pid has no slot in the table (\<^verbatim>\<open>findjob\<close> gives
  \<^verbatim>\<open>NULL\<close>) and some slot is free, a stop of the foreground process puts the pid into
  one free slot with the status \<open>STOPPED\<close> and the jid \<open>next_jid + 1\<close> (the
  counter has not run out), the table has exactly one live entry more, and the notice
  printed is "Job [jid] pid stopped by signal" with that jid. A foreground process that
  exits normally changes neither the table nor the trace.
\<close>

theorem run_fg_stop_adds_one_entry:
  assumes "length (jobs sh) = MAXJOBS"
    and "findjob p sh = NULL"
    and "f < MAXJOBS" and "\<not> live (jobs sh ! f)"
    and "0 \<le> next_jid sh" and "next_jid sh < INT_MAX"
  shows "(\<exists>k<MAXJOBS. \<not> live (jobs sh ! k) \<and>
            run_fg (Some (WStopped sig)) p sh =
              Ret (sh\<lparr>jobs := (jobs sh)[k := \<lparr>pid = p, jid = next_jid sh + 1, st = STOPPED\<rparr>],
                     next_jid := next_jid sh + 1, fg_pid := 0,
                     trace := trace sh @
                       [Psignal sig (''Job ['' @ show_int (next_jid sh + 1) @ ''] '' @ show_int p @
                                     '' stopped by signal'')]\<rparr>) \<and>
            length (filter live ((jobs sh)[k := \<lparr>pid = p, jid = next_jid sh + 1, st = STOPPED\<rparr>])) =
              Suc (length (filter live (jobs sh)))) \<and>
         run_fg (Some (WExited c)) p sh = Ret (sh\<lparr>fg_pid := p\<rparr>)"
proof -
  let ?sh = "sh\<lparr>fg_pid := 0\<rparr>"
  from assms(2) have none: "setjobstat_loop (jobs ?sh) p 0 = None"
    by (simp add: findjob_NULL)
  from addjob_None [OF none, of STOPPED] assms(3,4,6)
  obtain k where k: "k < MAXJOBS" "\<not> live (jobs sh ! k)"
    "addjob p STOPPED ?sh = Ret (next_jid sh + 1, alloc k p STOPPED ?sh)"
    by auto
  have "run_fg (Some (WStopped sig)) p sh =
          Ret (sh\<lparr>jobs := (jobs sh)[k := \<lparr>pid = p, jid = next_jid sh + 1, st = STOPPED\<rparr>],
                 next_jid := next_jid sh + 1, fg_pid := 0,
                 trace := trace sh @
                   [Psignal sig (''Job ['' @ show_int (next_jid sh + 1) @ ''] '' @ show_int p @
                                 '' stopped by signal'')]\<rparr>)"
    using k(3) assms(5)
    by (simp add: run_fg_def WIFSIGNALED_def WIFSTOPPED_def WSTOPSIG_def alloc_def log_def
        job_overwrite)
  moreover have "length (filter live ((jobs sh)[k := \<lparr>pid = p, jid = next_jid sh + 1, st = STOPPED\<rparr>])) =
      Suc (length (filter live (jobs sh)))"
    using k(1,2) assms(1) by (intro filter_update_count) (simp_all add: live_def)
  moreover have "run_fg (Some (WExited c)) p sh = Ret (sh\<lparr>fg_pid := p\<rparr>)"
    by (simp add: run_fg_def WIFSIGNALED_def WIFSTOPPED_def)
  ultimately show ?thesis using k(1,2) by blast
qed

theorem run_fg_stop_adds_one_entry_witness:
  "length (jobs two_jobs_shell) = MAXJOBS \<and> findjob 42 two_jobs_shell = NULL \<and>
   (0::nat) < MAXJOBS \<and> \<not> live (jobs two_jobs_shell ! 0) \<and>
   0 \<le> next_jid two_jobs_shell \<and> next_jid two_jobs_shell < INT_MAX \<and>
   run_fg (Some (WStopped 20)) 42 two_jobs_shell =
     Ret (two_jobs_shell\<lparr>jobs := (jobs two_jobs_shell)[97 := \<lparr>pid = 42, jid = 3, st = STOPPED\<rparr>],
            next_jid := 3, fg_pid := 0,
            trace := [Psignal 20 ''Job [3] 42 stopped by signal'']\<rparr>) \<and>
   length (filter live (jobs two_jobs_shell)) = 2 \<and>
   length (filter live ((jobs two_jobs_shell)[97 := \<lparr>pid = 42, jid = 3, st = STOPPED\<rparr>])) = 3 \<and>
   run_fg (Some (WExited 0)) 42 two_jobs_shell = Ret (two_jobs_shell\<lparr>fg_pid := 42\<rparr>)"
proof -
  have h: "length (jobs two_jobs_shell) = MAXJOBS" "findjob 42 two_jobs_shell = NULL"
    "(0::nat) < MAXJOBS" "\<not> live (jobs two_jobs_shell ! 0)"
    "0 \<le> next_jid two_jobs_shell" "next_jid two_jobs_shell < INT_MAX"
    by code_simp+
  have r: "run_fg (Some (WStopped 20)) 42 two_jobs_shell =
     Ret (two_jobs_shell\<lparr>jobs := (jobs two_jobs_shell)[97 := \<lparr>pid = 42, jid = 3, st = STOPPED\<rparr>],
            next_jid := 3, fg_pid := 0,
            trace := [Psignal 20 ''Job [3] 42 stopped by signal'']\<rparr>)"
    by code_simp
  have n: "length (filter live (jobs two_jobs_shell)) = 2"
    "length (filter live ((jobs two_jobs_shell)[97 := \<lparr>pid = 42, jid = 3, st = STOPPED\<rparr>])) = 3"
    by code_simp+
  from run_fg_stop_adds_one_entry [where sig = 20 and c = 0, OF h]
  have "run_fg (Some (WExited 0)) 42 two_jobs_shell = Ret (two_jobs_shell\<lparr>fg_pid := 42\<rparr>)"
    by blast
  with h r n show ?thesis by simp
qed

text \<open>
  Claim C8 says that the background flag is set if and only if the final token is
  exactly \<^verbatim>\<open>&\<close>. \<^verbatim>\<open>parseline\<close> tests the first character of the final token only, and
  returns 1 on a line without tokens: the final token \<^verbatim>\<open>&x\<close> sets the flag and is
  removed, and the empty line sets the flag with no token at all.
\<close>

theorem parseline_ampersand_prefix:
  "tokens (butlast ''ls &x\<newline>'') = [''ls'', ''&x''] \<and>
   parseline ''ls &x\<newline>'' = Ret (1, [''ls'']) \<and>
   tokens (butlast ''\<newline>'') = [] \<and>
   parseline ''\<newline>'' = Ret (1, [])"
  by code_simp

text \<open>
  Claim C8 as amended: on a line that fits the argument vector, \<^verbatim>\<open>parseline\<close> sets the
  background flag if and only if the line has no token or its final token begins with
  \<^verbatim>\<open>&\<close>; such a final token is removed from the argument vector. A lone \<^verbatim>\<open>&\<close> and an
  empty line are no-ops for the evaluator. (The tokens are those of the line without
  its last character, the newline, which \<^verbatim>\<open>parseline\<close> overwrites with a space.)
\<close>

theorem parseline_background_flag:
  assumes "line \<noteq> []" and "length (tokens (butlast line)) < MAXARGS"
  shows "parseline line =
           Ret (if tokens (butlast line) = [] \<or>
                   first_char (last (tokens (butlast line))) = CHR ''&'' then 1 else 0,
                if tokens (butlast line) \<noteq> [] \<and>
                   first_char (last (tokens (butlast line))) = CHR ''&''
                then butlast (tokens (butlast line)) else tokens (butlast line)) \<and>
         ((tokens (butlast line) = [] \<or> tokens (butlast line) = [''&'']) \<longrightarrow>
            eval os line sh = Ret sh)"
proof -
  let ?t = "tokens (butlast line)"
  have p: "parseline line =
           Ret (if ?t = [] \<or> first_char (last ?t) = CHR ''&'' then 1 else 0,
                if ?t \<noteq> [] \<and> first_char (last ?t) = CHR ''&'' then butlast ?t else ?t)"
    using assms
    by (auto simp: parseline_def split_loop_tokens Let_def last_conv_nth butlast_conv_take)
  have "eval os line sh = Ret sh" if "?t = [] \<or> ?t = [''&'']"
    using that p by (auto simp: eval_def first_char_def)
  with p show ?thesis by blast
qed

theorem parseline_background_flag_witness:
  "''ls -l &\<newline>'' \<noteq> [] \<and> length (tokens (butlast ''ls -l &\<newline>'')) < MAXARGS \<and>
   tokens (butlast ''ls -l &\<newline>'') = [''ls'', ''-l'', ''&''] \<and>
   parseline ''ls -l &\<newline>'' = Ret (1, [''ls'', ''-l'']) \<and>
   tokens (butlast '' &\<newline>'') = [''&''] \<and>
   (\<forall>os sh. eval os '' &\<newline>'' sh = Ret sh) \<and>
   tokens (butlast ''  \<newline>'') = [] \<and>
   (\<forall>os sh. eval os ''  \<newline>'' sh = Ret sh)"
proof -
  have a: "''ls -l &\<newline>'' \<noteq> []" "length (tokens (butlast ''ls -l &\<newline>'')) < MAXARGS"
    "tokens (butlast ''ls -l &\<newline>'') = [''ls'', ''-l'', ''&'']"
    by code_simp+
  have b: "'' &\<newline>'' \<noteq> []" "length (tokens (butlast '' &\<newline>'')) < MAXARGS"
    "tokens (butlast '' &\<newline>'') = [''&'']"
    by code_simp+
  have c: "''  \<newline>'' \<noteq> []" "length (tokens (butlast ''  \<newline>'')) < MAXARGS"
    "tokens (butlast ''  \<newline>'') = []"
    by code_simp+
  have "first_char ''&'' = CHR ''&''" by code_simp
  with parseline_background_flag [OF a(1,2)] a(3)
  have "parseline ''ls -l &\<newline>'' = Ret (1, [''ls'', ''-l''])" by simp
  moreover from parseline_background_flag [OF b(1,2)] b(3)
  have "\<forall>os sh. eval os '' &\<newline>'' sh = Ret sh" by blast
  moreover from parseline_background_flag [OF c(1,2)] c(3)
  have "\<forall>os sh. eval os ''  \<newline>'' sh = Ret sh" by blast
  ultimately show ?thesis using a b c by blast
qed

text \<open>
  Claim C9: \<^verbatim>\<open>fg\<close> or \<^verbatim>\<open>bg\<close> with no argument token is a silent no-op. When the
  argument vector is the one word, \<^verbatim>\<open>eval\<close> returns the state it was given: nothing
  is printed, no signal is sent, the table and the foreground designation are unchanged,
  whatever the system calls would have returned.
\<close>

theorem fg_bg_without_argument:
  assumes "parseline line = Ret (bg, [c])" and "c = ''fg'' \<or> c = ''bg''"
  shows "eval os line sh = Ret sh"
  using assms by (auto simp: eval_def)

theorem fg_bg_without_argument_witness:
  "parseline ''fg\<newline>'' = Ret (0, [''fg'']) \<and> (\<forall>os sh. eval os ''fg\<newline>'' sh = Ret sh) \<and>
   parseline ''bg  &\<newline>'' = Ret (1, [''bg'']) \<and> (\<forall>os sh. eval os ''bg  &\<newline>'' sh = Ret sh)"
proof -
  have a: "parseline ''fg\<newline>'' = Ret (0, [''fg''])" by code_simp
  have b: "parseline ''bg  &\<newline>'' = Ret (1, [''bg''])" by code_simp
  from a b fg_bg_without_argument [OF a] fg_bg_without_argument [OF b] show ?thesis by simp
qed


end
